theory Spec2Isabelle
  imports Main "HOL-Library.Sublist"
begin

section \<open>Python strings\<close>

text \<open>
  A Python \<open>str\<close> is modelled as a \<open>string\<close>; the characters are the code points
  below 256. The predicates below are Python's on that range.
\<close>

definition isspace :: "char \<Rightarrow> bool" where
  \<comment> \<open>\<open>str.isspace\<close>, also the class \<open>\s\<close> of \<open>re\<close> on a \<open>str\<close> pattern\<close>
  "isspace c = (c \<in> set [CHR 0x09, CHR 0x0A, CHR 0x0B, CHR 0x0C, CHR 0x0D, CHR 0x1C,
     CHR 0x1D, CHR 0x1E, CHR 0x1F, CHR 0x20, CHR 0x85, CHR 0xA0])"

definition isalnum_ascii :: "char \<Rightarrow> bool" where
  \<comment> \<open>the class \<open>[\dA-Za-z]\<close>\<close>
  "isalnum_ascii c = (let n = (of_char c :: nat) in
     (48 \<le> n \<and> n \<le> 57) \<or> (65 \<le> n \<and> n \<le> 90) \<or> (97 \<le> n \<and> n \<le> 122))"

definition islinebreak :: "char \<Rightarrow> bool" where
  \<comment> \<open>the line boundaries of \<open>str.splitlines\<close>\<close>
  "islinebreak c = (c \<in> set [CHR 0x0A, CHR 0x0B, CHR 0x0C, CHR 0x0D, CHR 0x1C,
     CHR 0x1D, CHR 0x1E, CHR 0x85])"

definition strip :: "string \<Rightarrow> string" where
  \<comment> \<open>\<open>s.strip()\<close>\<close>
  "strip s = rev (dropWhile isspace (rev (dropWhile isspace s)))"

definition lstrip_chars :: "string \<Rightarrow> string \<Rightarrow> string" where
  \<comment> \<open>\<open>s.lstrip(chars)\<close>\<close>
  "lstrip_chars cs s = dropWhile (\<lambda>c. c \<in> set cs) s"

fun splitlines_from :: "string \<Rightarrow> string \<Rightarrow> string list" where
  \<comment> \<open>\<open>s.splitlines()\<close>; the first argument is the line read so far\<close>
  "splitlines_from cur [] = (if cur = [] then [] else [cur])"
| "splitlines_from cur (c # s) =
     (if c = CHR 0x0D then
        (case s of
           [] \<Rightarrow> [cur]
         | d # s' \<Rightarrow> if d = CHR 0x0A then cur # splitlines_from [] s'
                    else cur # splitlines_from [] s)
      else if islinebreak c then cur # splitlines_from [] s
      else splitlines_from (cur @ [c]) s)"

definition splitlines :: "string \<Rightarrow> string list" where
  "splitlines s = splitlines_from [] s"

section \<open>The regular expressions of the program\<close>

text \<open>
  Python's \<open>re\<close> is a backtracking matcher. A pattern is a value of \<open>regex\<close>, and
  \<open>rmatch\<close> lists every way the pattern matches at the start of the text, in the order
  in which the backtracking matcher tries them: the head of the list is the match
  Python reports. Repetition is only ever applied to a single character class in the
  patterns of this program, and no group stands inside an alternative.
\<close>

datatype cclass =
    Dot             \<comment> \<open>\<open>.\<close>: any character but the newline\<close>
  | Space           \<comment> \<open>\<open>\s\<close>\<close>
  | AlNum           \<comment> \<open>\<open>[\dA-Za-z]\<close>\<close>
  | Only char       \<comment> \<open>a literal character\<close>
  | Except char     \<comment> \<open>\<open>[^c]\<close>\<close>

fun cmem :: "cclass \<Rightarrow> char \<Rightarrow> bool" where
  "cmem Dot c = (c \<noteq> CHR 0x0A)"
| "cmem Space c = isspace c"
| "cmem AlNum c = isalnum_ascii c"
| "cmem (Only d) c = (c = d)"
| "cmem (Except d) c = (c \<noteq> d)"

datatype regex =
    Eps
  | Chr cclass
  | Rep cclass nat bool   \<comment> \<open>at least n of the class; greedy when the flag is set, lazy otherwise\<close>
  | Opt regex             \<comment> \<open>\<open>r?\<close>\<close>
  | Seq regex regex
  | Alt regex regex
  | Grp regex             \<comment> \<open>a capturing group\<close>
  | Bol                   \<comment> \<open>\<open>^\<close>\<close>
  | Eol                   \<comment> \<open>\<open>$\<close>\<close>

type_synonym mres = "string \<times> string list"
  \<comment> \<open>the matched text and the texts of the groups, in the order of their numbers\<close>

definition after :: "char option \<Rightarrow> string \<Rightarrow> char option" where
  \<comment> \<open>the character before the position reached by consuming \<open>m\<close>\<close>
  "after p m = (if m = [] then p else Some (last m))"

primrec rmatch :: "regex \<Rightarrow> bool \<Rightarrow> char option \<Rightarrow> string \<Rightarrow> mres list" where
  \<comment> \<open>\<open>rmatch r ml p s\<close>: the matches of \<open>r\<close> at a position where the text \<open>s\<close> remains
      and the character before is \<open>p\<close> (\<open>None\<close> at the start); \<open>ml\<close> is \<open>re.MULTILINE\<close>\<close>
  "rmatch Eps ml p s = [([], [])]"
| "rmatch (Chr c) ml p s =
     (case s of [] \<Rightarrow> [] | x # _ \<Rightarrow> if cmem c x then [([x], [])] else [])"
| "rmatch (Rep c n greedy) ml p s =
     (let ms = filter (\<lambda>m. n \<le> length m) (prefixes (takeWhile (cmem c) s))
      in map (\<lambda>m. (m, [])) (if greedy then rev ms else ms))"
| "rmatch (Opt r) ml p s = rmatch r ml p s @ [([], [])]"
| "rmatch (Seq a b) ml p s =
     concat (map (\<lambda>(m1, g1).
        map (\<lambda>(m2, g2). (m1 @ m2, g1 @ g2)) (rmatch b ml (after p m1) (drop (length m1) s)))
       (rmatch a ml p s))"
| "rmatch (Alt a b) ml p s = rmatch a ml p s @ rmatch b ml p s"
| "rmatch (Grp r) ml p s = map (\<lambda>(m, g). (m, m # g)) (rmatch r ml p s)"
| "rmatch Bol ml p s = (if p = None \<or> (ml \<and> p = Some (CHR 0x0A)) then [([], [])] else [])"
| "rmatch Eol ml p s =
     (if s = [] \<or> (ml \<and> hd s = CHR 0x0A) \<or> (\<not> ml \<and> s = [CHR 0x0A]) then [([], [])] else [])"

definition Lit :: "string \<Rightarrow> regex" where
  \<comment> \<open>a literal text\<close>
  "Lit cs = foldr (\<lambda>c r. Seq (Chr (Only c)) r) cs Eps"

lemma rmatch_prefix: "(m, g) \<in> set (rmatch r ml p s) \<Longrightarrow> prefix m s"
proof (induction r arbitrary: m g p s)
  case (Chr c)
  then show ?case by (auto split: list.splits if_splits)
next
  case (Rep c n greedy)
  then have "prefix m (takeWhile (cmem c) s)"
    by (auto simp: Let_def split: if_splits)
  then show ?case
    by (metis prefix_order.order_trans takeWhile_is_prefix)
next
  case (Seq a b)
  then obtain m1 g1 m2 g2 where *: "(m1, g1) \<in> set (rmatch a ml p s)"
    "(m2, g2) \<in> set (rmatch b ml (after p m1) (drop (length m1) s))" "m = m1 @ m2"
    by auto
  from Seq.IH(1)[OF *(1)] Seq.IH(2)[OF *(2)] *(3) show ?case
    by (auto simp: prefix_def)
qed (auto split: if_splits)


lemma rmatch_nonempty_text: "(m, g) \<in> set (rmatch r ml p s) \<Longrightarrow> m \<noteq> [] \<Longrightarrow> s \<noteq> []"
  using rmatch_prefix by fastforce

section \<open>\<open>re.match\<close>, \<open>re.sub\<close> and \<open>re.split\<close>\<close>

definition re_match :: "regex \<Rightarrow> bool \<Rightarrow> string \<Rightarrow> mres option" where
  \<comment> \<open>\<open>re.match(r, s)\<close>: the first match at the start of the text\<close>
  "re_match r ml s = (case rmatch r ml None s of [] \<Rightarrow> None | x # _ \<Rightarrow> Some x)"

datatype titem = TLit string | TGrp nat
  \<comment> \<open>a replacement template: literal text and group references \<open>\1\<close>, \<open>\2\<close>\<close>

fun expand :: "titem list \<Rightarrow> string list \<Rightarrow> string" where
  \<comment> \<open>Python refuses a template that names a group the pattern lacks before any text is
      read; the templates of this program name groups of their patterns only\<close>
  "expand [] g = []"
| "expand (TLit t # ts) g = t @ expand ts g"
| "expand (TGrp n # ts) g = (if 1 \<le> n \<and> n \<le> length g then g ! (n - 1) else []) @ expand ts g"

definition attempts :: "regex \<Rightarrow> bool \<Rightarrow> bool \<Rightarrow> char option \<Rightarrow> string \<Rightarrow> mres list" where
  \<comment> \<open>right after an empty match the matcher must advance: an empty match at the same
      position is refused\<close>
  "attempts r ml adv p s =
     (if adv then filter (\<lambda>(m, g). m \<noteq> []) (rmatch r ml p s) else rmatch r ml p s)"

lemma attempts_empty: "([], g) \<in> set (attempts r ml adv p s) \<Longrightarrow> \<not> adv"
  by (auto simp: attempts_def split: if_splits)

lemma attempts_rmatch: "x \<in> set (attempts r ml adv p s) \<Longrightarrow> x \<in> set (rmatch r ml p s)"
  by (auto simp: attempts_def split: if_splits)

function re_sub_from :: "regex \<Rightarrow> bool \<Rightarrow> titem list \<Rightarrow> bool \<Rightarrow> char option \<Rightarrow> string \<Rightarrow> string" where
  "re_sub_from r ml tpl adv p s =
     (case attempts r ml adv p s of
        [] \<Rightarrow> (case s of [] \<Rightarrow> [] | c # s' \<Rightarrow> c # re_sub_from r ml tpl False (Some c) s')
      | (m, g) # _ \<Rightarrow>
          expand tpl g @
          (if m = [] then re_sub_from r ml tpl True p s
           else re_sub_from r ml tpl False (Some (last m)) (drop (length m) s)))"
  by pat_completeness auto
termination
proof (relation "measure (\<lambda>(r, ml, tpl, adv, p, s). 2 * length s + (if adv then 0 else 1))",
    goal_cases)
  case 1
  show ?case by simp
next
  case (2 r ml tpl adv p s c s')
  then show ?case by simp
next
  case (3 r ml tpl adv p s x xs m g)
  then have "([], g) \<in> set (attempts r ml adv p s)" by simp
  then have "\<not> adv" by (rule attempts_empty)
  then show ?case by simp
next
  case (4 r ml tpl adv p s x xs m g)
  then have "(m, g) \<in> set (attempts r ml adv p s)" by simp
  then have "(m, g) \<in> set (rmatch r ml p s)" by (rule attempts_rmatch)
  then have "prefix m s" by (rule rmatch_prefix)
  with 4 have "length s - length m < length s"
    by (cases m; cases s) (auto simp: prefix_def)
  then show ?case by auto
qed

definition re_sub :: "regex \<Rightarrow> bool \<Rightarrow> titem list \<Rightarrow> string \<Rightarrow> string" where
  \<comment> \<open>\<open>re.sub(r, tpl, s)\<close>\<close>
  "re_sub r ml tpl s = re_sub_from r ml tpl False None s"

function re_split_from :: "regex \<Rightarrow> bool \<Rightarrow> bool \<Rightarrow> char option \<Rightarrow> string \<Rightarrow> string \<Rightarrow> string list" where
  \<comment> \<open>\<open>cur\<close> is the text read since the last match\<close>
  "re_split_from r ml adv p cur s =
     (case attempts r ml adv p s of
        [] \<Rightarrow> (case s of [] \<Rightarrow> [cur] | c # s' \<Rightarrow> re_split_from r ml False (Some c) (cur @ [c]) s')
      | (m, g) # _ \<Rightarrow>
          cur # g @
          (if m = [] then re_split_from r ml True p [] s
           else re_split_from r ml False (Some (last m)) [] (drop (length m) s)))"
  by pat_completeness auto
termination
proof (relation "measure (\<lambda>(r, ml, adv, p, cur, s). 2 * length s + (if adv then 0 else 1))",
    goal_cases)
  case 1
  show ?case by simp
next
  case (2 r ml adv p cur s c s')
  then show ?case by simp
next
  case (3 r ml adv p cur s x xs m g)
  then have "([], g) \<in> set (attempts r ml adv p s)" by simp
  then have "\<not> adv" by (rule attempts_empty)
  then show ?case by simp
next
  case (4 r ml adv p cur s x xs m g)
  then have "(m, g) \<in> set (attempts r ml adv p s)" by simp
  then have "(m, g) \<in> set (rmatch r ml p s)" by (rule attempts_rmatch)
  then have "prefix m s" by (rule rmatch_prefix)
  with 4 have "length s - length m < length s"
    by (cases m; cases s) (auto simp: prefix_def)
  then show ?case by auto
qed

definition re_split :: "regex \<Rightarrow> bool \<Rightarrow> string \<Rightarrow> string list" where
  \<comment> \<open>\<open>re.split(r, s)\<close>: the texts between the matches, each match's groups between them\<close>
  "re_split r ml s = re_split_from r ml False None [] s"

section \<open>\<open>process_inline_formatting\<close>\<close>

definition dot_plus_lazy :: regex where
  \<comment> \<open>\<open>.+?\<close>\<close>
  "dot_plus_lazy = Rep Dot 1 False"

definition bold_re :: regex where
  \<comment> \<open>\<open>\*\*(.+?)\*\*\<close>\<close>
  "bold_re = Seq (Lit ''**'') (Seq (Grp dot_plus_lazy) (Lit ''**''))"

definition bold_tpl :: "titem list" where
  \<comment> \<open>\<open><b>\1</b>\<close>\<close>
  "bold_tpl = [TLit ''<b>'', TGrp 1, TLit ''</b>'']"

definition italic_re :: regex where
  \<comment> \<open>\<open>\*(.+?)\*\<close>\<close>
  "italic_re = Seq (Lit ''*'') (Seq (Grp dot_plus_lazy) (Lit ''*''))"

definition italic_tpl :: "titem list" where
  \<comment> \<open>\<open><i>\1</i>\<close>\<close>
  "italic_tpl = [TLit ''<i>'', TGrp 1, TLit ''</i>'']"

definition url_re :: regex where
  \<comment> \<open>\<open>https?://[^\)]+\<close>\<close>
  "url_re = Seq (Lit ''http'') (Seq (Opt (Chr (Only CHR ''s'')))
     (Seq (Lit ''://'') (Rep (Except CHR '')'') 1 True)))"

definition link_re :: regex where
  \<comment> \<open>\<open>\[(.+?)\]\((https?://[^\)]+)\)\<close>\<close>
  "link_re = Seq (Lit ''['') (Seq (Grp dot_plus_lazy) (Seq (Lit '']('') (Seq (Grp url_re) (Lit '')''))))"

definition link_tpl :: "titem list" where
  \<comment> \<open>\<open><a href="\2" color="blue">\1</a>\<close>\<close>
  "link_tpl = [TLit (''<a href='' @ [CHR 0x22]), TGrp 2,
     TLit ([CHR 0x22] @ '' color='' @ [CHR 0x22] @ ''blue'' @ [CHR 0x22] @ ''>''), TGrp 1,
     TLit ''</a>'']"

definition process_inline_formatting :: "string \<Rightarrow> string" where
  "process_inline_formatting text0 =
     (let text1 = re_sub bold_re False bold_tpl text0;
          text2 = re_sub italic_re False italic_tpl text1;
          text3 = re_sub link_re False link_tpl text2
      in text3)"


section \<open>\<open>create_pdf_reportlab\<close>\<close>

text \<open>
  ReportLab's flowables are data: \<open>Paragraph(text, style)\<close>, \<open>Spacer(width, height)\<close>
  and \<open>ListFlowable(items, bulletType, leftIndent)\<close>. A style carries the fields the
  program sets. Constructing a paragraph is not total: ReportLab parses the markup of
  the text when the paragraph is made and raises \<open>ValueError\<close> when it rejects it
  (crossed tags such as \<open><b><i>a</b></i>\<close>, or a tag that is not closed). Which texts
  the parser accepts is the parameter \<open>parses\<close> of the model. The document builder
  \<open>doc.build\<close>, which lays the flowables out on pages and writes the bytes, is the
  parameter \<open>build\<close>.
\<close>

record ParagraphStyle =
  style_name :: string
  parent :: string
  fontName :: string
  fontSize :: int
  leading :: int
  spaceBefore :: "int option"
  spaceAfter :: "int option"
  textColor :: "string option"
  leftIndent :: "int option"
  bulletIndent :: "int option"

datatype flowable =
    Paragraph string ParagraphStyle
  | Spacer int int
  | ListFlowable "flowable list" string int

datatype error =
    FileNotFoundError string
  | ValueError string     \<comment> \<open>raised for a paragraph text; it holds the text\<close>

definition new_Paragraph :: "(string \<Rightarrow> bool) \<Rightarrow> string \<Rightarrow> ParagraphStyle \<Rightarrow> error + flowable" where
  \<comment> \<open>the call \<open>Paragraph(text, style)\<close>\<close>
  "new_Paragraph parses t style =
     (if parses t then Inr (Paragraph t style) else Inl (ValueError t))"

definition heading_style :: ParagraphStyle where
  "heading_style = \<lparr>style_name = ''Heading'', parent = ''Heading2'', fontName = ''DejaVuSans'',
     fontSize = 18, leading = 22, spaceBefore = Some 20, spaceAfter = Some 6,
     textColor = Some ''#4a90e2'', leftIndent = None, bulletIndent = None\<rparr>"

definition body_style :: ParagraphStyle where
  "body_style = \<lparr>style_name = ''Body'', parent = ''BodyText'', fontName = ''DejaVuSans'',
     fontSize = 12, leading = 16, spaceBefore = None, spaceAfter = Some 12,
     textColor = None, leftIndent = None, bulletIndent = None\<rparr>"

definition bullet_style :: ParagraphStyle where
  "bullet_style = \<lparr>style_name = ''Bullet'', parent = ''BodyText'', fontName = ''DejaVuSans'',
     fontSize = 12, leading = 16, spaceBefore = None, spaceAfter = Some 6,
     textColor = None, leftIndent = Some 20, bulletIndent = Some 10\<rparr>"

definition font_path :: string where
  \<comment> \<open>\<open>os.path.join("dejavu-fonts-ttf-2.37", "dejavu-fonts-ttf-2.37", "ttf", "DejaVuSans.ttf")\<close>\<close>
  "font_path = ''dejavu-fonts-ttf-2.37'' @ ''/'' @ ''dejavu-fonts-ttf-2.37'' @ ''/'' @ ''ttf''
     @ ''/'' @ ''DejaVuSans.ttf''"

definition heading_re :: regex where
  \<comment> \<open>\<open>(^##\s*.+$)\<close>, used with \<open>re.MULTILINE\<close>\<close>
  "heading_re = Grp (Seq Bol (Seq (Lit ''##'') (Seq (Rep Space 0 True) (Seq (Rep Dot 1 True) Eol))))"

definition marker_re :: regex where
  \<comment> \<open>\<open>^(?:[\dA-Za-z]+\.\s+|\-\s+)\<close>\<close>
  "marker_re = Seq Bol (Alt (Seq (Rep AlNum 1 True) (Seq (Lit ''.'') (Rep Space 1 True)))
     (Seq (Lit ''-'') (Rep Space 1 True)))"

fun bullet_match_loop :: "string list \<Rightarrow> mres option" where
  \<comment> \<open>the first loop over the lines: it stops at the first line that is not blank\<close>
  "bullet_match_loop [] = None"
| "bullet_match_loop (line # ls) =
     (if strip line \<noteq> [] then re_match marker_re False line else bullet_match_loop ls)"

fun bullet_items_loop ::
  "(string \<Rightarrow> bool) \<Rightarrow> string list \<Rightarrow> flowable list \<Rightarrow> error + flowable list" where
  \<comment> \<open>the second loop over the lines, appending to \<open>bullet_items\<close>; it ends at the
      first paragraph that ReportLab refuses\<close>
  "bullet_items_loop parses [] bullet_items = Inr bullet_items"
| "bullet_items_loop parses (line0 # ls) bullet_items =
     (let line1 = strip line0 in
      if line1 \<noteq> [] then
        (let line2 = re_sub marker_re False [] line1
         in case new_Paragraph parses line2 bullet_style of
              Inl e \<Rightarrow> Inl e
            | Inr item \<Rightarrow> bullet_items_loop parses ls (bullet_items @ [item]))
      else bullet_items_loop parses ls bullet_items)"

definition body_elements :: "(string \<Rightarrow> bool) \<Rightarrow> string \<Rightarrow> error + flowable list" where
  \<comment> \<open>what the text of a section appends to \<open>elements\<close>: a bullet list, a paragraph or
      nothing\<close>
  "body_elements parses section_content =
     (let bullet_match = bullet_match_loop (splitlines section_content)
      in if bullet_match \<noteq> None then
           (case bullet_items_loop parses (splitlines section_content) [] of
              Inl e \<Rightarrow> Inl e
            | Inr bullet_items \<Rightarrow> Inr [ListFlowable bullet_items ''bullet'' 20])
         else if section_content \<noteq> [] then
           (case new_Paragraph parses section_content body_style of
              Inl e \<Rightarrow> Inl e
            | Inr paragraph \<Rightarrow> Inr [paragraph])
         else Inr [])"

definition section_elements ::
  "(string \<Rightarrow> bool) \<Rightarrow> int \<Rightarrow> string \<Rightarrow> string \<Rightarrow> error + flowable list" where
  \<comment> \<open>the body of the loop over the sections: what one heading line and the text after it
      append to \<open>elements\<close>\<close>
  "section_elements parses heading_to_content_space part_heading part_body =
     (let heading_line = strip part_heading;
          heading_text0 = strip (lstrip_chars ''#'' heading_line);
          heading_text = process_inline_formatting heading_text0
      in case new_Paragraph parses heading_text heading_style of
           Inl e \<Rightarrow> Inl e
         | Inr heading \<Rightarrow>
             (let section_content0 = strip part_body;
                  section_content = process_inline_formatting section_content0
              in case body_elements parses section_content of
                   Inl e \<Rightarrow> Inl e
                 | Inr body \<Rightarrow>
                     Inr ([heading, Spacer 1 heading_to_content_space] @ body @ [Spacer 1 12])))"

function sections_loop ::
  "(string \<Rightarrow> bool) \<Rightarrow> int \<Rightarrow> string list \<Rightarrow> nat \<Rightarrow> flowable list \<Rightarrow> error + flowable list" where
  \<comment> \<open>\<open>for i in range(1, len(parts), 2)\<close>, appending to \<open>elements\<close>\<close>
  "sections_loop parses heading_to_content_space parts i elements =
     (if i < length parts then
        (case section_elements parses heading_to_content_space (parts ! i)
                (if i + 1 < length parts then parts ! (i + 1) else []) of
           Inl e \<Rightarrow> Inl e
         | Inr new_elements \<Rightarrow>
             sections_loop parses heading_to_content_space parts (i + 2) (elements @ new_elements))
      else Inr elements)"
  by pat_completeness auto
termination
  by (relation "measure (\<lambda>(parses, sp, parts, i, elements). length parts - i)") auto

definition create_pdf_reportlab ::
  "(string \<Rightarrow> bool) \<Rightarrow> (flowable list \<Rightarrow> 'pdf) \<Rightarrow> string set \<Rightarrow> string \<Rightarrow> string \<Rightarrow> int \<Rightarrow>
     error + 'pdf" where
  \<comment> \<open>\<open>parses\<close> says which paragraph texts ReportLab accepts; \<open>build\<close> is \<open>doc.build\<close>
      followed by \<open>buffer.getvalue()\<close>; \<open>fs\<close> is the set of paths that exist\<close>
  "create_pdf_reportlab parses build fs content file_name heading_to_content_space =
     (if font_path \<notin> fs then Inl (FileNotFoundError (''TTF Font file not found: '' @ font_path))
      else
        (let parts = re_split heading_re True content
         in case sections_loop parses heading_to_content_space parts 1 [] of
              Inl e \<Rightarrow> Inl e
            | Inr elements \<Rightarrow> Inr (build elements)))"

section \<open>Auxiliary definitions\<close>


fun re_search_from :: "regex \<Rightarrow> bool \<Rightarrow> char option \<Rightarrow> string \<Rightarrow> mres option" where
  "re_search_from r ml p s =
     (case rmatch r ml p s of
        x # _ \<Rightarrow> Some x
      | [] \<Rightarrow> (case s of [] \<Rightarrow> None | c # s' \<Rightarrow> re_search_from r ml (Some c) s'))"

declare re_search_from.simps [simp del]

definition re_search :: "regex \<Rightarrow> bool \<Rightarrow> string \<Rightarrow> mres option" where
  "re_search r ml s = re_search_from r ml None s"

primrec min_len :: "regex \<Rightarrow> nat" where
  "min_len Eps = 0"
| "min_len (Chr c) = 1"
| "min_len (Rep c n greedy) = n"
| "min_len (Opt r) = 0"
| "min_len (Seq a b) = min_len a + min_len b"
| "min_len (Alt a b) = min (min_len a) (min_len b)"
| "min_len (Grp r) = min_len r"
| "min_len Bol = 0"
| "min_len Eol = 0"

fun pairs :: "string list \<Rightarrow> (string \<times> string) list" where
  "pairs (h # b # r) = (h, b) # pairs r"
| "pairs [h] = [(h, [])]"
| "pairs [] = []"

fun lines_from :: "string \<Rightarrow> string \<Rightarrow> string list" where
  "lines_from cur [] = [cur]"
| "lines_from cur (c # s) =
     (if c = CHR 0x0A then cur # lines_from [] s else lines_from (cur @ [c]) s)"

definition lines_nl :: "string \<Rightarrow> string list" where
  "lines_nl s = lines_from [] s"

primrec nl_free :: "regex \<Rightarrow> bool" where
  "nl_free Eps = True"
| "nl_free (Chr c) = (\<not> cmem c (CHR 0x0A))"
| "nl_free (Rep c n greedy) = (\<not> cmem c (CHR 0x0A))"
| "nl_free (Opt r) = nl_free r"
| "nl_free (Seq a b) = (nl_free a \<and> nl_free b)"
| "nl_free (Alt a b) = (nl_free a \<and> nl_free b)"
| "nl_free (Grp r) = nl_free r"
| "nl_free Bol = False"
| "nl_free Eol = False"

fun tpl_chars :: "titem list \<Rightarrow> char set" where
  "tpl_chars [] = {}"
| "tpl_chars (TLit t # ts) = set t \<union> tpl_chars ts"
| "tpl_chars (TGrp n # ts) = tpl_chars ts"

definition has_marker :: "string \<Rightarrow> bool" where
  "has_marker l =
     (let a = takeWhile isalnum_ascii l; r = dropWhile isalnum_ascii l
      in (a \<noteq> [] \<and> (case r of d # w # _ \<Rightarrow> d = CHR ''.'' \<and> isspace w | _ \<Rightarrow> False)) \<or>
         (case l of d # w # _ \<Rightarrow> d = CHR ''-'' \<and> isspace w | _ \<Rightarrow> False))"

definition spec_bullet_items :: "string \<Rightarrow> string list" where
  "spec_bullet_items body =
     map (\<lambda>line. process_inline_formatting (re_sub marker_re False [] (strip line)))
       (filter (\<lambda>line. strip line \<noteq> []) (splitlines body))"

definition first_is :: "regex \<Rightarrow> bool \<Rightarrow> char option \<Rightarrow> string \<Rightarrow> mres \<Rightarrow> bool" where
  \<comment> \<open>\<open>x\<close> is the match the engine prefers\<close>
  "first_is r ml p s x = (\<exists>zs. rmatch r ml p s = x # zs)"

fun join_nl :: "string list \<Rightarrow> string" where
  "join_nl [] = []"
| "join_nl [l] = l"
| "join_nl (l # l' # ls) = l @ CHR 0x0A # join_nl (l' # ls)"

fun spec_parts :: "string \<Rightarrow> string list \<Rightarrow> string list" where
  \<comment> \<open>the list \<open>re.split\<close> is to return, computed line by line: \<open>cur\<close> is the text
      gathered since the last heading line\<close>
  "spec_parts cur [] = [cur]"
| "spec_parts cur [l] = (if prefix ''##'' l then [cur, l, []] else [cur @ l])"
| "spec_parts cur (l # l' # ls) =
     (if prefix ''##'' l then cur # l # spec_parts [CHR 0x0A] (l' # ls)
      else spec_parts (cur @ l @ [CHR 0x0A]) (l' # ls))"

fun spec_sections :: "string list \<Rightarrow> (string \<times> string list) list" where
  \<comment> \<open>the sections of a document given as its lines: every line that begins with \<open>##\<close>
      opens one, which holds the lines up to the next such line; the lines before the
      first one belong to no section\<close>
  "spec_sections [] = []"
| "spec_sections (l # ls) =
     (if prefix ''##'' l then (l, takeWhile (\<lambda>x. \<not> prefix ''##'' x) ls) # spec_sections ls
      else spec_sections ls)"

definition body_text :: "string list \<Rightarrow> string" where
  \<comment> \<open>the lines of a section after its heading line, each after its line break\<close>
  "body_text ls = concat (map (\<lambda>l. CHR 0x0A # l) ls)"

fun collect :: "(error + 'a list) list \<Rightarrow> error + 'a list" where
  \<comment> \<open>the flowables of all sections in order, or the first exception raised\<close>
  "collect [] = Inr []"
| "collect (x # xs) =
     (case x of
        Inl e \<Rightarrow> Inl e
      | Inr a \<Rightarrow> (case collect xs of Inl e \<Rightarrow> Inl e | Inr b \<Rightarrow> Inr (a @ b)))"

definition claimed_heading_line :: "string \<Rightarrow> bool" where
  \<comment> \<open>the heading lines in the words of the specification: the content of the line
      that is not blank begins with two or more \<open>#\<close>\<close>
  "claimed_heading_line l = prefix ''##'' (strip l)"

section \<open>Properties of the matcher\<close>

declare re_sub_from.simps [simp del] re_split_from.simps [simp del] sections_loop.simps [simp del]

lemma Lit_Nil: "Lit [] = Eps"
  by (simp add: Lit_def)

lemma Lit_Cons: "Lit (c # cs) = Seq (Chr (Only c)) (Lit cs)"
  by (simp add: Lit_def)

lemma rmatch_Lit: "rmatch (Lit cs) ml p s = (if prefix cs s then [(cs, [])] else [])"
proof (induction cs arbitrary: p s)
  case Nil
  show ?case by (simp add: Lit_Nil)
next
  case (Cons c cs)
  show ?case by (cases s) (auto simp: Lit_Cons Cons.IH)
qed

lemma min_len_Lit: "min_len (Lit cs) = length cs"
  by (induction cs) (simp_all add: Lit_Nil Lit_Cons)

lemma prefix_takeWhile_iff: "prefix m (takeWhile P s) \<longleftrightarrow> prefix m s \<and> (\<forall>x\<in>set m. P x)"
proof
  assume *: "prefix m (takeWhile P s)"
  then have "prefix m s"
    using takeWhile_is_prefix prefix_order.order_trans by blast
  moreover from * have "set m \<subseteq> set (takeWhile P s)"
    by (rule set_mono_prefix)
  then have "\<forall>x\<in>set m. P x"
    by (auto dest: set_takeWhileD)
  ultimately show "prefix m s \<and> (\<forall>x\<in>set m. P x)" ..
next
  assume "prefix m s \<and> (\<forall>x\<in>set m. P x)"
  then obtain r where "s = m @ r" "\<forall>x\<in>set m. P x"
    by (auto simp: prefix_def)
  then show "prefix m (takeWhile P s)"
    by (simp add: takeWhile_append2)
qed

lemma in_rmatch_Rep:
  "(m, g) \<in> set (rmatch (Rep c n greedy) ml p s) \<longleftrightarrow>
     g = [] \<and> n \<le> length m \<and> prefix m s \<and> (\<forall>x\<in>set m. cmem c x)"
  by (auto simp: Let_def prefix_takeWhile_iff)

lemma in_rmatch_Seq:
  "(m, g) \<in> set (rmatch (Seq a b) ml p s) \<longleftrightarrow>
     (\<exists>m1 g1 m2 g2. (m1, g1) \<in> set (rmatch a ml p s) \<and>
        (m2, g2) \<in> set (rmatch b ml (after p m1) (drop (length m1) s)) \<and>
        m = m1 @ m2 \<and> g = g1 @ g2)"
  by (auto simp: image_iff) force

lemma in_rmatch_Grp:
  "(m, g) \<in> set (rmatch (Grp r) ml p s) \<longleftrightarrow> (\<exists>g'. (m, g') \<in> set (rmatch r ml p s) \<and> g = m # g')"
  by auto

lemma in_rmatch_Lit:
  "(m, g) \<in> set (rmatch (Lit cs) ml p s) \<longleftrightarrow> m = cs \<and> g = [] \<and> prefix cs s"
  by (auto simp: rmatch_Lit)

lemma min_len_le: "(m, g) \<in> set (rmatch r ml p s) \<Longrightarrow> min_len r \<le> length m"
proof (induction r arbitrary: m g p s)
  case (Seq a b)
  then obtain m1 g1 m2 g2 where *: "(m1, g1) \<in> set (rmatch a ml p s)"
    "(m2, g2) \<in> set (rmatch b ml (after p m1) (drop (length m1) s))" "m = m1 @ m2"
    by auto
  from Seq.IH(1)[OF *(1)] Seq.IH(2)[OF *(2)] *(3) show ?case by simp
next
  case (Alt a b)
  then show ?case by (auto simp: min_def dest: Alt.IH)
qed (auto simp: Let_def split: list.splits if_splits)

lemma re_sub_from_unfold:
  assumes "0 < min_len r"
  shows "re_sub_from r ml tpl False p s =
     (case rmatch r ml p s of
        [] \<Rightarrow> (case s of [] \<Rightarrow> [] | c # s' \<Rightarrow> c # re_sub_from r ml tpl False (Some c) s')
      | (m, g) # _ \<Rightarrow> expand tpl g @ re_sub_from r ml tpl False (Some (last m)) (drop (length m) s))"
proof (cases "rmatch r ml p s")
  case Nil
  then show ?thesis
    by (subst re_sub_from.simps) (simp add: attempts_def)
next
  case (Cons x xs)
  obtain m g where x: "x = (m, g)" by (cases x)
  with Cons have "(m, g) \<in> set (rmatch r ml p s)" by simp
  then have "m \<noteq> []" using min_len_le assms by fastforce
  with Cons x show ?thesis
    by (subst re_sub_from.simps) (simp add: attempts_def)
qed

lemma re_split_from_unfold:
  assumes "0 < min_len r"
  shows "re_split_from r ml False p cur s =
     (case rmatch r ml p s of
        [] \<Rightarrow> (case s of [] \<Rightarrow> [cur] | c # s' \<Rightarrow> re_split_from r ml False (Some c) (cur @ [c]) s')
      | (m, g) # _ \<Rightarrow> cur # g @ re_split_from r ml False (Some (last m)) [] (drop (length m) s))"
proof (cases "rmatch r ml p s")
  case Nil
  then show ?thesis
    by (subst re_split_from.simps) (simp add: attempts_def)
next
  case (Cons x xs)
  obtain m g where x: "x = (m, g)" by (cases x)
  with Cons have "(m, g) \<in> set (rmatch r ml p s)" by simp
  then have "m \<noteq> []" using min_len_le assms by fastforce
  with Cons x show ?thesis
    by (subst re_split_from.simps) (simp add: attempts_def)
qed

lemma re_search_from_None:
  "re_search_from r ml p s = None \<longleftrightarrow>
     rmatch r ml p s = [] \<and> (case s of [] \<Rightarrow> True | c # s' \<Rightarrow> re_search_from r ml (Some c) s' = None)"
  by (subst re_search_from.simps) (auto split: list.splits)

lemma re_sub_no_match: "re_search_from r ml p s = None \<Longrightarrow> re_sub_from r ml tpl adv p s = s"
proof (induction s arbitrary: p adv)
  case Nil
  then have "rmatch r ml p [] = []" by (simp add: re_search_from_None)
  then show ?case by (subst re_sub_from.simps) (simp add: attempts_def)
next
  case (Cons c s)
  then have "rmatch r ml p (c # s) = []" "re_search_from r ml (Some c) s = None"
    by (simp_all add: re_search_from_None)
  with Cons.IH show ?case by (subst re_sub_from.simps) (simp add: attempts_def)
qed

lemma re_split_no_match:
  "re_search_from r ml p s = None \<Longrightarrow> re_split_from r ml adv p cur s = [cur @ s]"
proof (induction s arbitrary: p adv cur)
  case Nil
  then have "rmatch r ml p [] = []" by (simp add: re_search_from_None)
  then show ?case by (subst re_split_from.simps) (simp add: attempts_def)
next
  case (Cons c s)
  then have "rmatch r ml p (c # s) = []" "re_search_from r ml (Some c) s = None"
    by (simp_all add: re_search_from_None)
  with Cons.IH show ?case by (subst re_split_from.simps) (simp add: attempts_def)
qed

lemma rmatch_Seq_Lit:
  "rmatch (Seq (Lit cs) r) ml p s =
     (if prefix cs s then map (\<lambda>(m, g). (cs @ m, g)) (rmatch r ml (after p cs) (drop (length cs) s))
      else [])"
  by (simp add: rmatch_Lit)

lemma rmatch_Seq_Bol:
  "rmatch (Seq Bol r) ml p s =
     (if p = None \<or> (ml \<and> p = Some (CHR 0x0A)) then rmatch r ml p s else [])"
  by (cases p) (auto simp: after_def)

lemma heading_match_line_start:
  "rmatch heading_re True p s \<noteq> [] \<Longrightarrow> (p = None \<or> p = Some (CHR 0x0A)) \<and> prefix ''##'' s"
  unfolding heading_re_def
  by (simp only: rmatch.simps(7) rmatch_Seq_Bol rmatch_Seq_Lit split: if_splits) auto

lemma lines_from_cur: "lines_from cur s = (cur @ hd (lines_from [] s)) # tl (lines_from [] s)"
proof (induction s arbitrary: cur)
  case Nil
  show ?case by simp
next
  case (Cons c s)
  show ?case
  proof (cases "c = CHR 0x0A")
    case True
    then show ?thesis by simp
  next
    case False
    then show ?thesis
      using Cons.IH [of "cur @ [c]"] Cons.IH [of "[c]"] by simp
  qed
qed

lemma lines_nl_Nil: "lines_nl [] = [[]]"
  by (simp add: lines_nl_def)

lemma lines_nl_Cons:
  "lines_nl (c # s) =
     (if c = CHR 0x0A then [] # lines_nl s else (c # hd (lines_nl s)) # tl (lines_nl s))"
  using lines_from_cur [of "[c]" s] by (simp add: lines_nl_def)

lemma lines_nl_not_Nil: "lines_nl s \<noteq> []"
  by (induction s) (auto simp: lines_nl_Nil lines_nl_Cons)

lemma hd_lines_nl: "hd (lines_nl s) = takeWhile (\<lambda>c. c \<noteq> CHR 0x0A) s"
  by (induction s) (auto simp: lines_nl_Nil lines_nl_Cons)

lemma prefix_hashes_hd_lines: "prefix ''##'' (hd (lines_nl s)) \<longleftrightarrow> prefix ''##'' s"
  by (simp add: hd_lines_nl prefix_takeWhile_iff)

lemma heading_no_match:
  assumes "(p = None \<or> p = Some (CHR 0x0A)) \<longrightarrow> \<not> prefix ''##'' s"
    and "\<forall>l\<in>set (tl (lines_nl s)). \<not> prefix ''##'' l"
  shows "re_search_from heading_re True p s = None"
  using assms
proof (induction s arbitrary: p)
  case Nil
  then have "rmatch heading_re True p [] = []"
    using heading_match_line_start by blast
  then show ?case by (simp add: re_search_from_None)
next
  case (Cons c s)
  have m: "rmatch heading_re True p (c # s) = []"
    using heading_match_line_start Cons.prems(1) by blast
  have "re_search_from heading_re True (Some c) s = None"
  proof (rule Cons.IH)
    show "Some c = None \<or> Some c = Some (CHR 0x0A) \<longrightarrow> \<not> prefix ''##'' s"
    proof
      assume "Some c = None \<or> Some c = Some (CHR 0x0A)"
      then have c: "c = CHR 0x0A" by simp
      with Cons.prems(2) have "\<not> prefix ''##'' (hd (lines_nl s))"
        using lines_nl_not_Nil [of s] by (cases "lines_nl s") (auto simp: lines_nl_Cons)
      then show "\<not> prefix ''##'' s" by (simp add: prefix_hashes_hd_lines)
    qed
    show "\<forall>l\<in>set (tl (lines_nl s)). \<not> prefix ''##'' l"
      using Cons.prems(2) lines_nl_not_Nil [of s]
      by (cases "lines_nl s") (auto simp: lines_nl_Cons split: if_splits)
  qed
  with m show ?case by (simp add: re_search_from_None)
qed

lemma takeWhile_append_stop: "\<not> P x \<Longrightarrow> takeWhile P (a @ x # b) = takeWhile P a"
  by (induction a) auto

lemma concat_map_cong:
  "(\<And>x. x \<in> set xs \<Longrightarrow> f x = g x) \<Longrightarrow> concat (map f xs) = concat (map g xs)"
  by (induction xs) auto

lemma nl_free_prev: "nl_free r \<Longrightarrow> rmatch r ml p s = rmatch r ml p' s"
proof (induction r arbitrary: p p' s)
  case (Seq a b)
  from Seq.prems have fa: "nl_free a" and fb: "nl_free b" by simp_all
  have a: "rmatch a ml p s = rmatch a ml p' s" using fa by (rule Seq.IH(1))
  have "concat (map (\<lambda>(m1, g1).
          map (\<lambda>(m2, g2). (m1 @ m2, g1 @ g2)) (rmatch b ml (after p m1) (drop (length m1) s)))
        (rmatch a ml p' s)) =
     concat (map (\<lambda>(m1, g1).
          map (\<lambda>(m2, g2). (m1 @ m2, g1 @ g2)) (rmatch b ml (after p' m1) (drop (length m1) s)))
        (rmatch a ml p' s))"
  proof (rule concat_map_cong)
    fix x assume "x \<in> set (rmatch a ml p' s)"
    obtain m1 g1 where x: "x = (m1, g1)" by (cases x)
    have "rmatch b ml (after p m1) (drop (length m1) s) = rmatch b ml (after p' m1) (drop (length m1) s)"
      using fb by (rule Seq.IH(2))
    then show "(case x of (m1, g1) \<Rightarrow>
          map (\<lambda>(m2, g2). (m1 @ m2, g1 @ g2)) (rmatch b ml (after p m1) (drop (length m1) s))) =
        (case x of (m1, g1) \<Rightarrow>
          map (\<lambda>(m2, g2). (m1 @ m2, g1 @ g2)) (rmatch b ml (after p' m1) (drop (length m1) s)))"
      unfolding x by (simp only: prod.case)
  qed
  then show ?case unfolding rmatch.simps a .
next
  case (Alt a b)
  from Alt.prems have fa: "nl_free a" and fb: "nl_free b" by simp_all
  have "rmatch a ml p s = rmatch a ml p' s" using fa by (rule Alt.IH(1))
  moreover have "rmatch b ml p s = rmatch b ml p' s" using fb by (rule Alt.IH(2))
  ultimately show ?case by (simp only: rmatch.simps)
next
  case (Opt r)
  from Opt.prems have "nl_free r" by simp
  then have "rmatch r ml p s = rmatch r ml p' s" by (rule Opt.IH)
  then show ?case by (simp only: rmatch.simps)
next
  case (Grp r)
  from Grp.prems have "nl_free r" by simp
  then have "rmatch r ml p s = rmatch r ml p' s" by (rule Grp.IH)
  then show ?case by (simp only: rmatch.simps)
qed simp_all

lemma nl_free_local:
  "nl_free r \<Longrightarrow> rmatch r ml p (a @ CHR 0x0A # b) = rmatch r ml p a"
proof (induction r arbitrary: p a)
  case (Chr c)
  then show ?case by (cases a) auto
next
  case (Rep c n greedy)
  then show ?case by (simp add: takeWhile_append_stop)
next
  case (Seq r1 r2)
  have a: "rmatch r1 ml p (a @ CHR 0x0A # b) = rmatch r1 ml p a" using Seq by simp
  have "concat (map (\<lambda>(m1, g1).
          map (\<lambda>(m2, g2). (m1 @ m2, g1 @ g2))
            (rmatch r2 ml (after p m1) (drop (length m1) (a @ CHR 0x0A # b))))
        (rmatch r1 ml p a)) =
     concat (map (\<lambda>(m1, g1).
          map (\<lambda>(m2, g2). (m1 @ m2, g1 @ g2)) (rmatch r2 ml (after p m1) (drop (length m1) a)))
        (rmatch r1 ml p a))"
  proof (rule concat_map_cong)
    fix x assume xin: "x \<in> set (rmatch r1 ml p a)"
    obtain m1 g1 where x: "x = (m1, g1)" by (cases x)
    with xin have "prefix m1 a" using rmatch_prefix by blast
    then have "length m1 \<le> length a" by (rule prefix_length_le)
    then have "drop (length m1) (a @ CHR 0x0A # b) = drop (length m1) a @ CHR 0x0A # b"
      by simp
    then have "rmatch r2 ml (after p m1) (drop (length m1) (a @ CHR 0x0A # b)) =
        rmatch r2 ml (after p m1) (drop (length m1) a)"
      using Seq by simp
    with x show "(case x of (m1, g1) \<Rightarrow>
          map (\<lambda>(m2, g2). (m1 @ m2, g1 @ g2))
            (rmatch r2 ml (after p m1) (drop (length m1) (a @ CHR 0x0A # b)))) =
        (case x of (m1, g1) \<Rightarrow>
          map (\<lambda>(m2, g2). (m1 @ m2, g1 @ g2)) (rmatch r2 ml (after p m1) (drop (length m1) a)))"
      by simp
  qed
  with a show ?case by simp
qed simp_all

lemma re_sub_from_prev:
  assumes "nl_free r" "0 < min_len r"
  shows "re_sub_from r ml tpl False p s = re_sub_from r ml tpl False p' s"
  by (subst re_sub_from_unfold [OF assms(2)], subst (2) re_sub_from_unfold [OF assms(2)])
    (simp add: nl_free_prev [OF assms(1), of ml p s p'])

lemma re_sub_from_lines:
  assumes "nl_free r" "0 < min_len r"
  shows "re_sub_from r ml tpl False p (a @ CHR 0x0A # b) =
    re_sub_from r ml tpl False p a @ CHR 0x0A # re_sub_from r ml tpl False None b"
proof (induction "length a" arbitrary: a p rule: less_induct)
  case less
  have loc: "rmatch r ml p (a @ CHR 0x0A # b) = rmatch r ml p a"
    using assms(1) by (rule nl_free_local)
  show ?case
  proof (cases "rmatch r ml p a")
    case Nil
    show ?thesis
    proof (cases a)
      case Nil': Nil
      have "re_sub_from r ml tpl False p (CHR 0x0A # b) =
          CHR 0x0A # re_sub_from r ml tpl False (Some (CHR 0x0A)) b"
        using Nil Nil' loc by (subst re_sub_from_unfold [OF assms(2)]) simp
      moreover have "re_sub_from r ml tpl False p [] = []"
        using Nil Nil' by (subst re_sub_from_unfold [OF assms(2)]) simp
      ultimately show ?thesis
        using Nil' re_sub_from_prev [OF assms, of ml tpl "Some (CHR 0x0A)" b None] by simp
    next
      case (Cons c a')
      have "re_sub_from r ml tpl False p (a @ CHR 0x0A # b) =
          c # re_sub_from r ml tpl False (Some c) (a' @ CHR 0x0A # b)"
        using Nil Cons loc by (subst re_sub_from_unfold [OF assms(2)]) simp
      moreover have "re_sub_from r ml tpl False p a = c # re_sub_from r ml tpl False (Some c) a'"
        using Nil Cons by (subst re_sub_from_unfold [OF assms(2)]) simp
      moreover have "re_sub_from r ml tpl False (Some c) (a' @ CHR 0x0A # b) =
          re_sub_from r ml tpl False (Some c) a' @ CHR 0x0A # re_sub_from r ml tpl False None b"
        using Cons by (intro less) simp
      ultimately show ?thesis by simp
    qed
  next
    case (Cons x xs)
    obtain m g where x: "x = (m, g)" by (cases x)
    with Cons have min: "(m, g) \<in> set (rmatch r ml p a)" by simp
    then have pre: "prefix m a" by (rule rmatch_prefix)
    from min have "min_len r \<le> length m" by (rule min_len_le)
    with assms(2) have ne: "m \<noteq> []" by auto
    from pre have le: "length m \<le> length a" by (rule prefix_length_le)
    have "re_sub_from r ml tpl False p (a @ CHR 0x0A # b) =
        expand tpl g @ re_sub_from r ml tpl False (Some (last m)) (drop (length m) a @ CHR 0x0A # b)"
      using Cons x loc le by (subst re_sub_from_unfold [OF assms(2)]) simp
    moreover have "re_sub_from r ml tpl False p a =
        expand tpl g @ re_sub_from r ml tpl False (Some (last m)) (drop (length m) a)"
      using Cons x by (subst re_sub_from_unfold [OF assms(2)]) simp
    moreover have "re_sub_from r ml tpl False (Some (last m)) (drop (length m) a @ CHR 0x0A # b) =
        re_sub_from r ml tpl False (Some (last m)) (drop (length m) a) @
          CHR 0x0A # re_sub_from r ml tpl False None b"
    proof (rule less)
      from pre ne show "length (drop (length m) a) < length a"
        by (cases m; cases a) (auto simp: prefix_def)
    qed
    ultimately show ?thesis by simp
  qed
qed

lemma min_len_bold: "0 < min_len bold_re"
  by (simp add: bold_re_def dot_plus_lazy_def min_len_Lit)

lemma min_len_italic: "0 < min_len italic_re"
  by (simp add: italic_re_def dot_plus_lazy_def min_len_Lit)

lemma min_len_link: "0 < min_len link_re"
  by (simp add: link_re_def dot_plus_lazy_def min_len_Lit)

lemma min_len_heading: "0 < min_len heading_re"
  by (simp add: heading_re_def min_len_Lit)

lemma nl_free_Lit: "nl_free (Lit cs) \<longleftrightarrow> CHR 0x0A \<notin> set cs"
  by (induction cs) (auto simp: Lit_Nil Lit_Cons)

lemma nl_free_bold: "nl_free bold_re"
  by (simp add: bold_re_def dot_plus_lazy_def nl_free_Lit)

lemma nl_free_italic: "nl_free italic_re"
  by (simp add: italic_re_def dot_plus_lazy_def nl_free_Lit)

lemma process_inline_formatting_Nil: "process_inline_formatting [] = []"
  by code_simp

lemma prefix_append_drop: "prefix (a @ b) s \<longleftrightarrow> prefix a s \<and> prefix b (drop (length a) s)"
  by (auto simp: prefix_def)

lemma in_rmatch_group_lit:
  "(m, g) \<in> set (rmatch (Seq (Grp (Rep c n greedy)) (Lit cl)) ml p s) \<longleftrightarrow>
     (\<exists>t. n \<le> length t \<and> (\<forall>x\<in>set t. cmem c x) \<and> m = t @ cl \<and> g = [t] \<and> prefix (t @ cl) s)"
  unfolding in_rmatch_Seq in_rmatch_Grp in_rmatch_Rep in_rmatch_Lit prefix_append_drop
  by blast

lemma in_rmatch_lit_seq:
  "(m, g) \<in> set (rmatch (Seq (Lit cs) r) ml p s) \<longleftrightarrow>
     (\<exists>m'. (m', g) \<in> set (rmatch r ml (after p cs) (drop (length cs) s)) \<and> m = cs @ m' \<and> prefix cs s)"
  unfolding in_rmatch_Seq in_rmatch_Lit
  by auto

lemma in_rmatch_delimited:
  "(m, g) \<in> set (rmatch (Seq (Lit op) (Seq (Grp (Rep c n greedy)) (Lit cl))) ml p s) \<longleftrightarrow>
     (\<exists>t. n \<le> length t \<and> (\<forall>x\<in>set t. cmem c x) \<and> m = op @ t @ cl \<and> g = [t] \<and> prefix m s)"
  unfolding in_rmatch_lit_seq in_rmatch_group_lit
  by (auto simp: prefix_append_drop)

lemma in_rmatch_bold:
  "(m, g) \<in> set (rmatch bold_re ml p s) \<longleftrightarrow>
     (\<exists>t. t \<noteq> [] \<and> CHR 0x0A \<notin> set t \<and> m = ''**'' @ t @ ''**'' \<and> g = [t] \<and> prefix m s)"
  unfolding bold_re_def dot_plus_lazy_def in_rmatch_delimited
  by (auto simp: Suc_le_eq)

lemma in_rmatch_italic:
  "(m, g) \<in> set (rmatch italic_re ml p s) \<longleftrightarrow>
     (\<exists>t. t \<noteq> [] \<and> CHR 0x0A \<notin> set t \<and> m = ''*'' @ t @ ''*'' \<and> g = [t] \<and> prefix m s)"
  unfolding italic_re_def dot_plus_lazy_def in_rmatch_delimited
  by (auto simp: Suc_le_eq)

lemma rmatch_groups_chars:
  "(m, g) \<in> set (rmatch r ml p s) \<Longrightarrow> x \<in> set g \<Longrightarrow> set x \<subseteq> set s"
proof (induction r arbitrary: m g p s x)
  case (Seq a b)
  then obtain m1 g1 m2 g2 where *: "(m1, g1) \<in> set (rmatch a ml p s)"
    "(m2, g2) \<in> set (rmatch b ml (after p m1) (drop (length m1) s))" "g = g1 @ g2"
    by auto
  from Seq.prems(2) *(3) consider "x \<in> set g1" | "x \<in> set g2" by auto
  then show ?case
  proof cases
    case 1
    with *(1) show ?thesis by (rule Seq.IH(1))
  next
    case 2
    with *(2) have "set x \<subseteq> set (drop (length m1) s)" by (rule Seq.IH(2))
    then show ?thesis using set_drop_subset by fastforce
  qed
next
  case (Grp r)
  then obtain g' where *: "(m, g') \<in> set (rmatch r ml p s)" "g = m # g'" by auto
  from Grp.prems(2) *(2) consider "x = m" | "x \<in> set g'" by auto
  then show ?case
  proof cases
    case 1
    with *(1) show ?thesis using rmatch_prefix set_mono_prefix by blast
  next
    case 2
    with *(1) show ?thesis by (rule Grp.IH)
  qed
next
  case (Alt a b)
  then show ?case by (auto dest: Alt.IH)
next
  case (Opt r)
  then show ?case by (auto dest: Opt.IH)
qed (auto simp: Let_def split: list.splits if_splits)

lemma expand_chars: "set (expand tpl g) \<subseteq> tpl_chars tpl \<union> (\<Union>x\<in>set g. set x)"
proof (induction tpl g rule: expand.induct)
  case (3 n ts g)
  then show ?case by (auto simp: subset_iff)
qed auto

lemma re_sub_from_chars:
  "set (re_sub_from r ml tpl adv p s) \<subseteq> set s \<union> tpl_chars tpl"
proof (induction r ml tpl adv p s rule: re_sub_from.induct)
  case (1 r ml tpl adv p s)
  show ?case
  proof (cases "attempts r ml adv p s")
    case Nil
    show ?thesis
    proof (cases s)
      case Nil': Nil
      with Nil show ?thesis by (subst re_sub_from.simps) simp
    next
      case (Cons c s')
      with Nil 1(1)[OF Nil Cons] show ?thesis
        by (subst re_sub_from.simps) auto
    qed
  next
    case (Cons y ys)
    obtain m g where y: "y = (m, g)" by (cases y)
    with Cons have "(m, g) \<in> set (attempts r ml adv p s)" by simp
    then have min: "(m, g) \<in> set (rmatch r ml p s)" by (rule attempts_rmatch)
    then have "\<And>x. x \<in> set g \<Longrightarrow> set x \<subseteq> set s" by (rule rmatch_groups_chars)
    with expand_chars [of tpl g] have e: "set (expand tpl g) \<subseteq> set s \<union> tpl_chars tpl"
      by blast
    show ?thesis
    proof (cases "m = []")
      case True
      with Cons y e 1(2)[OF Cons y[symmetric] True] show ?thesis
        by (subst re_sub_from.simps) auto
    next
      case False
      have "set (drop (length m) s) \<subseteq> set s" by (rule set_drop_subset)
      with False Cons y e 1(3)[OF Cons y[symmetric] False] show ?thesis
        by (subst re_sub_from.simps) auto
    qed
  qed
qed

lemma italic_match_star: "rmatch italic_re ml p s \<noteq> [] \<Longrightarrow> prefix ''*'' s"
  unfolding italic_re_def by (simp only: rmatch_Seq_Lit split: if_splits)

lemma bold_match_stars: "rmatch bold_re ml p s \<noteq> [] \<Longrightarrow> prefix ''**'' s"
  unfolding bold_re_def by (simp only: rmatch_Seq_Lit split: if_splits)

lemma star_free_no_italic:
  assumes "CHR ''*'' \<notin> set s"
  shows "re_search_from italic_re ml p s = None"
  using assms
proof (induction s arbitrary: p)
  case Nil
  have "rmatch italic_re ml p [] = []"
    using italic_match_star [of ml p "[]"] by auto
  then show ?case
    by (subst re_search_from.simps) simp
next
  case (Cons c s)
  then have "rmatch italic_re ml p (c # s) = []"
    using italic_match_star [of ml p "c # s"] by auto
  with Cons show ?case
    by (subst re_search_from.simps) simp
qed

lemma bold_alone:
  assumes "x \<noteq> []" "CHR ''*'' \<notin> set x" "CHR 0x0A \<notin> set x"
  shows "re_sub bold_re False bold_tpl (''**'' @ x @ ''**'') = ''<b>'' @ x @ ''</b>''"
proof -
  define s where "s = ''**'' @ x @ ''**''"
  have mem: "(s, [x]) \<in> set (rmatch bold_re False None s)"
    using assms by (subst in_rmatch_bold) (auto simp: s_def)
  have uniq: "y = (s, [x])" if "y \<in> set (rmatch bold_re False None s)" for y
  proof -
    obtain m g where y: "y = (m, g)" by (cases y)
    with that obtain t where t: "t \<noteq> []" "m = ''**'' @ t @ ''**''" "g = [t]" "prefix m s"
      by (auto simp: in_rmatch_bold)
    from t(2,4) have pre: "prefix (t @ ''**'') (x @ ''**'')" by (simp add: s_def)
    then have len: "length t \<le> length x" by (auto dest: prefix_length_le)
    have "t = x"
    proof (cases "length t = length x")
      case True
      with pre show ?thesis by (auto simp: prefix_def)
    next
      case False
      with len have lt: "length t < length x" by simp
      from pre obtain r where r: "x @ ''**'' = t @ ''**'' @ r" by (auto simp: prefix_def)
      then have "(x @ ''**'') ! length t = (t @ ''**'' @ r) ! length t" by simp
      with lt have "x ! length t = CHR ''*''" by (simp add: nth_append)
      with lt assms(2) show ?thesis using nth_mem by fastforce
    qed
    with t y show ?thesis by (simp add: s_def)
  qed
  from mem obtain ys where L: "rmatch bold_re False None s = (s, [x]) # ys"
    using uniq by (cases "rmatch bold_re False None s") auto
  have E: "rmatch bold_re False p [] = []" for p
    using bold_match_stars [of False p "[]"] by auto
  have R: "re_sub_from bold_re False bold_tpl False p [] = []" for p
    by (subst re_sub_from_unfold [OF min_len_bold]) (simp add: E)
  have "re_sub_from bold_re False bold_tpl False None s = expand bold_tpl [x] @ []"
    by (subst re_sub_from_unfold [OF min_len_bold]) (simp add: L R)
  then show ?thesis
    by (simp add: re_sub_def s_def bold_tpl_def)
qed

lemma in_rmatch_Opt:
  "(m, g) \<in> set (rmatch (Opt r) ml p s) \<longleftrightarrow> (m, g) \<in> set (rmatch r ml p s) \<or> (m = [] \<and> g = [])"
  by auto

lemma in_rmatch_Chr:
  "(m, g) \<in> set (rmatch (Chr c) ml p s) \<longleftrightarrow> (\<exists>x. m = [x] \<and> g = [] \<and> cmem c x \<and> prefix [x] s)"
  by (cases s) auto

lemma in_rmatch_lit_rep:
  "(m, g) \<in> set (rmatch (Seq (Lit cs) (Rep c n greedy)) ml p s) \<longleftrightarrow>
     (\<exists>u. n \<le> length u \<and> (\<forall>x\<in>set u. cmem c x) \<and> m = cs @ u \<and> g = [] \<and> prefix m s)"
  unfolding in_rmatch_lit_seq in_rmatch_Rep
  by (auto simp: prefix_append_drop)

lemma rmatch_opt_seq:
  "rmatch (Seq (Opt (Chr (Only d))) r) ml p s =
     (if prefix [d] s then map (\<lambda>(m, g). (d # m, g)) (rmatch r ml (Some d) (drop 1 s)) else [])
     @ rmatch r ml p s"
  by (cases s) (simp_all add: after_def)

lemma in_rmatch_opt_seq:
  "(m, g) \<in> set (rmatch (Seq (Opt (Chr (Only d))) r) ml p s) \<longleftrightarrow>
     (\<exists>m'. (m', g) \<in> set (rmatch r ml (Some d) (drop 1 s)) \<and> m = d # m' \<and> prefix [d] s) \<or>
     (m, g) \<in> set (rmatch r ml p s)"
  unfolding rmatch_opt_seq by (cases "prefix [d] s") (simp_all add: image_iff, force)

lemma lit_seqE:
  assumes "(m, g) \<in> set (rmatch (Seq (Lit cs) r) ml p s)"
  obtains m' q s' where "m = cs @ m'" "(m', g) \<in> set (rmatch r ml q s')"
  using assms unfolding in_rmatch_lit_seq by blast

lemma seqE:
  assumes "(m, g) \<in> set (rmatch (Seq a b) ml p s)"
  obtains m1 g1 m2 g2 q s' where "(m1, g1) \<in> set (rmatch a ml p s)"
    "(m2, g2) \<in> set (rmatch b ml q s')" "m = m1 @ m2" "g = g1 @ g2"
  using assms unfolding in_rmatch_Seq by blast

lemma grpE:
  assumes "(m, g) \<in> set (rmatch (Grp r) ml p s)"
  obtains g' where "g = m # g'" "(m, g') \<in> set (rmatch r ml p s)"
  using assms unfolding in_rmatch_Grp by blast

lemma opt_chr_seqE:
  assumes "(m, g) \<in> set (rmatch (Seq (Opt (Chr (Only d))) r) ml p s)"
  obtains m' q s' where "m = [d] @ m' \<or> m = m'" "(m', g) \<in> set (rmatch r ml q s')"
  using assms unfolding in_rmatch_opt_seq by auto

lemma url_match_shape:
  assumes "(m, g) \<in> set (rmatch url_re ml p s)"
  shows "g = [] \<and> (\<exists>u. u \<noteq> [] \<and> CHR '')'' \<notin> set u \<and> (m = ''http://'' @ u \<or> m = ''https://'' @ u))"
proof -
  from assms [unfolded url_re_def] obtain m1 q1 s1 where m1: "m = ''http'' @ m1"
    and in1: "(m1, g) \<in> set (rmatch (Seq (Opt (Chr (Only CHR ''s'')))
       (Seq (Lit ''://'') (Rep (Except CHR '')'') 1 True))) ml q1 s1)"
    by (rule lit_seqE)
  from in1 obtain m2 q2 s2 where m2: "m1 = ''s'' @ m2 \<or> m1 = m2"
    and in2: "(m2, g) \<in> set (rmatch (Seq (Lit ''://'') (Rep (Except CHR '')'') 1 True)) ml q2 s2)"
    by (rule opt_chr_seqE)
  from in2 obtain u where u: "1 \<le> length u" "\<forall>x\<in>set u. cmem (Except CHR '')'') x"
    "m2 = ''://'' @ u" "g = []"
    unfolding in_rmatch_lit_rep by blast
  from u(1) have "u \<noteq> []" by auto
  moreover from u(2) have "CHR '')'' \<notin> set u" by auto
  moreover from m1 m2 u(3) have "m = ''http://'' @ u \<or> m = ''https://'' @ u" by auto
  ultimately show ?thesis using u(4) by blast
qed

lemma url_match_scheme:
  assumes "(m, g) \<in> set (rmatch url_re ml p s)"
  shows "prefix ''http://'' m \<or> prefix ''https://'' m"
proof -
  from url_match_shape [OF assms] obtain u where "m = ''http://'' @ u \<or> m = ''https://'' @ u"
    by blast
  then show ?thesis
  proof
    assume "m = ''http://'' @ u"
    then have "prefix ''http://'' m" by (simp only: prefixI)
    then show ?thesis ..
  next
    assume "m = ''https://'' @ u"
    then have "prefix ''https://'' m" by (simp only: prefixI)
    then show ?thesis ..
  qed
qed

lemma link_match_shape:
  assumes "(m, g) \<in> set (rmatch link_re ml p s)"
  shows "\<exists>t url. t \<noteq> [] \<and> CHR 0x0A \<notin> set t \<and> g = [t, url] \<and> m = ''['' @ t @ '']('' @ url @ '')'' \<and>
    (prefix ''http://'' url \<or> prefix ''https://'' url) \<and> prefix m s"
proof -
  have pm: "prefix m s" using assms by (rule rmatch_prefix)
  from assms [unfolded link_re_def] obtain m1 q1 s1 where m1: "m = ''['' @ m1"
    and in1: "(m1, g) \<in> set (rmatch (Seq (Grp dot_plus_lazy)
       (Seq (Lit '']('') (Seq (Grp url_re) (Lit '')'')))) ml q1 s1)"
    by (rule lit_seqE)
  from in1 obtain t g1 m2 g2 q2 s2 where t: "(t, g1) \<in> set (rmatch (Grp dot_plus_lazy) ml q1 s1)"
    and in2: "(m2, g2) \<in> set (rmatch (Seq (Lit '']('') (Seq (Grp url_re) (Lit '')''))) ml q2 s2)"
    and m12: "m1 = t @ m2" "g = g1 @ g2"
    by (rule seqE)
  from t obtain g1' where g1: "g1 = t # g1'" and t': "(t, g1') \<in> set (rmatch dot_plus_lazy ml q1 s1)"
    by (rule grpE)
  from t' have g1': "g1' = []" and tn: "1 \<le> length t" "\<forall>x\<in>set t. cmem Dot x"
    unfolding dot_plus_lazy_def in_rmatch_Rep by simp_all
  from in2 obtain m3 q3 s3 where m3: "m2 = '']('' @ m3"
    and in3: "(m3, g2) \<in> set (rmatch (Seq (Grp url_re) (Lit '')'')) ml q3 s3)"
    by (rule lit_seqE)
  from in3 obtain url gu m4 g4 q4 s4 where url: "(url, gu) \<in> set (rmatch (Grp url_re) ml q3 s3)"
    and in4: "(m4, g4) \<in> set (rmatch (Lit '')'') ml q4 s4)"
    and m34: "m3 = url @ m4" "g2 = gu @ g4"
    by (rule seqE)
  from url obtain gu' where gu: "gu = url # gu'" "(url, gu') \<in> set (rmatch url_re ml q3 s3)"
    by (rule grpE)
  from url_match_shape [OF gu(2)] have gu': "gu' = []" by blast
  from url_match_scheme [OF gu(2)] have sch: "prefix ''http://'' url \<or> prefix ''https://'' url" .
  from in4 have m4: "m4 = '')''" "g4 = []"
    unfolding in_rmatch_Lit by simp_all
  from tn(1) have t1: "t \<noteq> []" by (cases t) simp_all
  have t2: "CHR 0x0A \<notin> set t" using tn(2) cmem.simps(1) by blast
  have G: "g = [t, url]" using m12(2) g1 g1' m34(2) gu(1) gu' m4(2) by simp
  have M: "m = ''['' @ t @ '']('' @ url @ '')''" using m1 m12(1) m3 m34(1) m4(1) by simp
  show ?thesis
    by (intro exI [of _ t] exI [of _ url] conjI) (rule t1 t2 G M sch pm)+
qed

lemma re_search_from_no_suffix:
  assumes "\<And>q s'. suffix s' s \<Longrightarrow> rmatch r ml q s' = []"
  shows "re_search_from r ml p s = None"
  using assms
proof (induction s arbitrary: p)
  case Nil
  then have "rmatch r ml p [] = []" by simp
  then show ?case by (simp add: re_search_from_None)
next
  case (Cons c s)
  have "rmatch r ml p (c # s) = []" by (rule Cons.prems) simp
  moreover have "re_search_from r ml (Some c) s = None"
  proof (rule Cons.IH)
    fix q s' assume "suffix s' s"
    then have "suffix s' (c # s)" by (rule suffix_ConsI)
    then show "rmatch r ml q s' = []" by (rule Cons.prems)
  qed
  ultimately show ?case by (simp add: re_search_from_None)
qed

lemma sublist_in_prefix:
  assumes "prefix (a @ b @ c) s"
  shows "sublist b s"
proof -
  from assms obtain r where "s = a @ b @ (c @ r)" by (auto simp: prefix_def)
  then show ?thesis by (simp only: sublist_appendI)
qed

lemma link_needs_scheme:
  assumes "rmatch link_re ml p s \<noteq> []"
  shows "sublist ''](http://'' s \<or> sublist ''](https://'' s"
proof -
  from assms obtain m g where "(m, g) \<in> set (rmatch link_re ml p s)"
    by (cases "rmatch link_re ml p s") auto
  then obtain t url where m: "m = ''['' @ t @ '']('' @ url @ '')''"
    and sch: "prefix ''http://'' url \<or> prefix ''https://'' url" and pm: "prefix m s"
    using link_match_shape by blast
  from sch show ?thesis
  proof
    assume "prefix ''http://'' url"
    then obtain u where "url = ''http://'' @ u" by (auto simp: prefix_def)
    with m have "m = (''['' @ t) @ ''](http://'' @ (u @ '')'')" by simp
    with pm have "sublist ''](http://'' s" using sublist_in_prefix by blast
    then show ?thesis ..
  next
    assume "prefix ''https://'' url"
    then obtain u where "url = ''https://'' @ u" by (auto simp: prefix_def)
    with m have "m = (''['' @ t) @ ''](https://'' @ (u @ '')'')" by simp
    with pm have "sublist ''](https://'' s" using sublist_in_prefix by blast
    then show ?thesis ..
  qed
qed

lemma no_scheme_no_link:
  assumes "\<not> sublist ''](http://'' s" "\<not> sublist ''](https://'' s"
  shows "re_search_from link_re ml p s = None"
proof (rule re_search_from_no_suffix)
  fix q s' assume suf: "suffix s' s"
  show "rmatch link_re ml q s' = []"
  proof (rule ccontr)
    assume "rmatch link_re ml q s' \<noteq> []"
    then have "sublist ''](http://'' s' \<or> sublist ''](https://'' s'"
      by (rule link_needs_scheme)
    moreover from suf have "sublist s' s" by (rule suffix_imp_sublist)
    ultimately have "sublist ''](http://'' s \<or> sublist ''](https://'' s"
      using sublist_order.order_trans by blast
    with assms show False by blast
  qed
qed

lemma star_free_no_bold:
  assumes "CHR ''*'' \<notin> set s"
  shows "re_search_from bold_re ml p s = None"
proof (rule re_search_from_no_suffix)
  fix q s' assume suf: "suffix s' s"
  show "rmatch bold_re ml q s' = []"
  proof (rule ccontr)
    assume "rmatch bold_re ml q s' \<noteq> []"
    then have "prefix ''**'' s'" by (rule bold_match_stars)
    then have "CHR ''*'' \<in> set s'" by (auto simp: prefix_def)
    with suf have "CHR ''*'' \<in> set s" using set_mono_suffix by blast
    with assms show False by blast
  qed
qed

lemma splitlines_from_first:
  assumes "cur \<noteq> [] \<or> rest \<noteq> []" "rest = [] \<or> islinebreak (hd rest)"
  shows "\<exists>ls. splitlines_from cur rest = cur # ls"
proof (cases rest)
  case Nil
  with assms show ?thesis by simp
next
  case (Cons c r)
  with assms(2) have "islinebreak c" by simp
  with Cons show ?thesis by (cases r) auto
qed

lemma splitlines_from_line:
  assumes "\<forall>c\<in>set l. \<not> islinebreak c"
  shows "splitlines_from cur (l @ rest) = splitlines_from (cur @ l) rest"
  using assms
proof (induction l arbitrary: cur)
  case Nil
  show ?case by simp
next
  case (Cons c l)
  then have "\<not> islinebreak c" by simp
  moreover then have "c \<noteq> CHR 0x0D" by (auto simp: islinebreak_def)
  ultimately show ?case using Cons by simp
qed

lemma splitlines_first_line:
  assumes "l \<noteq> []" "\<forall>c\<in>set l. \<not> islinebreak c" "rest = [] \<or> islinebreak (hd rest)"
  shows "\<exists>ls. splitlines (l @ rest) = l # ls"
  using splitlines_from_line [OF assms(2), of "[]" rest] splitlines_from_first [of l rest] assms(1,3)
  by (simp add: splitlines_def)

lemma strip_not_Nil:
  assumes "c \<in> set l" "\<not> isspace c"
  shows "strip l \<noteq> []"
proof -
  from assms have "c \<in> set (dropWhile isspace l)"
    by (induction l) auto
  then have "c \<in> set (rev (dropWhile isspace l))" by simp
  with assms(2) have "dropWhile isspace (rev (dropWhile isspace l)) \<noteq> []"
    by (metis dropWhile_eq_Nil_conv)
  then show ?thesis by (simp add: strip_def)
qed

lemma nonempty_has_member: "xs \<noteq> [] \<longleftrightarrow> (\<exists>m g. (m, g) \<in> set xs)"
  by (cases xs) auto

lemma rep_lit_rep_match_iff:
  "rmatch (Seq (Rep c n greedy) (Seq (Lit cs) (Rep c2 n2 greedy2))) ml p s \<noteq> [] \<longleftrightarrow>
     (\<exists>a u. n \<le> length a \<and> (\<forall>x\<in>set a. cmem c x) \<and> n2 \<le> length u \<and> (\<forall>x\<in>set u. cmem c2 x) \<and>
        prefix (a @ cs @ u) s)"
  (is "?L \<longleftrightarrow> ?R")
proof
  assume ?L
  then obtain m g where "(m, g) \<in> set (rmatch (Seq (Rep c n greedy) (Seq (Lit cs) (Rep c2 n2 greedy2))) ml p s)"
    unfolding nonempty_has_member by blast
  then obtain a g1 m2 g2 where a: "(a, g1) \<in> set (rmatch (Rep c n greedy) ml p s)"
    and m2: "(m2, g2) \<in> set (rmatch (Seq (Lit cs) (Rep c2 n2 greedy2)) ml (after p a) (drop (length a) s))"
    unfolding in_rmatch_Seq [of m g "Rep c n greedy"] by blast
  from a have a': "n \<le> length a" "\<forall>x\<in>set a. cmem c x" "prefix a s"
    unfolding in_rmatch_Rep by simp_all
  from m2 obtain u where u: "n2 \<le> length u" "\<forall>x\<in>set u. cmem c2 x" "prefix (cs @ u) (drop (length a) s)"
    unfolding in_rmatch_lit_rep by blast
  from a'(3) u(3) have "prefix (a @ cs @ u) s" by (simp only: prefix_append_drop)
  with a'(1,2) u(1,2) show ?R by blast
next
  assume ?R
  then obtain a u where a: "n \<le> length a" "\<forall>x\<in>set a. cmem c x"
    and u: "n2 \<le> length u" "\<forall>x\<in>set u. cmem c2 x" and pre: "prefix (a @ cs @ u) s"
    by blast
  from pre have pa: "prefix a s" and pu: "prefix (cs @ u) (drop (length a) s)"
    by (simp_all only: prefix_append_drop)
  from a pa have 1: "(a, []) \<in> set (rmatch (Rep c n greedy) ml p s)"
    unfolding in_rmatch_Rep by simp
  from u pu have 2: "(cs @ u, []) \<in> set (rmatch (Seq (Lit cs) (Rep c2 n2 greedy2)) ml (after p a) (drop (length a) s))"
    unfolding in_rmatch_lit_rep by blast
  from 1 2 have "(a @ cs @ u, [] @ []) \<in> set (rmatch (Seq (Rep c n greedy) (Seq (Lit cs) (Rep c2 n2 greedy2))) ml p s)"
    unfolding in_rmatch_Seq [of "a @ cs @ u" "[] @ []" "Rep c n greedy"] by blast
  then show ?L unfolding nonempty_has_member by blast
qed

lemma lit_rep_match_iff:
  "rmatch (Seq (Lit cs) (Rep c n greedy)) ml p s \<noteq> [] \<longleftrightarrow>
     (\<exists>u. n \<le> length u \<and> (\<forall>x\<in>set u. cmem c x) \<and> prefix (cs @ u) s)"
  (is "?L \<longleftrightarrow> ?R")
proof
  assume ?L
  then obtain m g where "(m, g) \<in> set (rmatch (Seq (Lit cs) (Rep c n greedy)) ml p s)"
    unfolding nonempty_has_member by blast
  then show ?R unfolding in_rmatch_lit_rep by blast
next
  assume ?R
  then obtain u where "n \<le> length u" "\<forall>x\<in>set u. cmem c x" "prefix (cs @ u) s" by blast
  then have "(cs @ u, []) \<in> set (rmatch (Seq (Lit cs) (Rep c n greedy)) ml p s)"
    unfolding in_rmatch_lit_rep by blast
  then show ?L unfolding nonempty_has_member by blast
qed

lemma not_alnum_dot: "\<not> isalnum_ascii (CHR ''.'')"
  by (simp add: isalnum_ascii_def)

lemma ordered_marker_iff:
  "(\<exists>a u. 1 \<le> length a \<and> (\<forall>x\<in>set a. cmem AlNum x) \<and> 1 \<le> length u \<and> (\<forall>x\<in>set u. cmem Space x) \<and>
        prefix (a @ ''.'' @ u) l) \<longleftrightarrow>
   (takeWhile isalnum_ascii l \<noteq> [] \<and>
     (case dropWhile isalnum_ascii l of d # w # _ \<Rightarrow> d = CHR ''.'' \<and> isspace w | _ \<Rightarrow> False))"
  (is "?L \<longleftrightarrow> ?R")
proof
  assume ?L
  then obtain a u r where a: "a \<noteq> []" "\<forall>x\<in>set a. isalnum_ascii x"
    and u: "u \<noteq> []" "\<forall>x\<in>set u. isspace x" and l: "l = a @ CHR ''.'' # u @ r"
    by (auto simp: prefix_def Suc_le_eq)
  from a(2) l have tw: "takeWhile isalnum_ascii l = a"
    by (simp add: takeWhile_append_stop not_alnum_dot)
  from a(2) l have "dropWhile isalnum_ascii l = CHR ''.'' # u @ r"
    by (simp add: dropWhile_append3 not_alnum_dot)
  with u tw a(1) show ?R by (cases u) auto
next
  assume R: ?R
  then obtain w r where d: "dropWhile isalnum_ascii l = CHR ''.'' # w # r" "isspace w"
    by (auto split: list.splits)
  let ?a = "takeWhile isalnum_ascii l"
  have "l = ?a @ ''.'' @ [w] @ r"
    using takeWhile_dropWhile_id [of isalnum_ascii l] d(1) by simp
  then have "prefix (?a @ ''.'' @ [w]) l" by (metis append.assoc prefixI)
  moreover have "\<forall>x\<in>set ?a. cmem AlNum x" by (auto dest: set_takeWhileD)
  moreover from R have "1 \<le> length ?a" by (cases ?a) auto
  moreover have "1 \<le> length [w]" "\<forall>x\<in>set [w]. cmem Space x" using d(2) by auto
  ultimately show ?L by blast
qed

lemma dash_marker_iff:
  "(\<exists>u. 1 \<le> length u \<and> (\<forall>x\<in>set u. cmem Space x) \<and> prefix (''-'' @ u) l) \<longleftrightarrow>
   (case l of d # w # _ \<Rightarrow> d = CHR ''-'' \<and> isspace w | _ \<Rightarrow> False)"
  (is "?L \<longleftrightarrow> ?R")
proof
  assume ?L
  then obtain u r where "u \<noteq> []" "\<forall>x\<in>set u. isspace x" "l = CHR ''-'' # u @ r"
    by (auto simp: prefix_def Suc_le_eq)
  then show ?R by (cases u) auto
next
  assume ?R
  then obtain w r where l: "l = CHR ''-'' # w # r" "isspace w"
    by (auto split: list.splits)
  then have "prefix (''-'' @ [w]) l" by simp
  moreover have "1 \<le> length [w]" "\<forall>x\<in>set [w]. cmem Space x" using l(2) by auto
  ultimately show ?L by blast
qed

lemma marker_match_iff: "re_match marker_re False l \<noteq> None \<longleftrightarrow> has_marker l"
proof -
  have "re_match marker_re False l \<noteq> None \<longleftrightarrow> rmatch marker_re False None l \<noteq> []"
    by (simp add: re_match_def split: list.splits)
  also have "\<dots> \<longleftrightarrow>
     rmatch (Seq (Rep AlNum 1 True) (Seq (Lit ''.'') (Rep Space 1 True))) False None l \<noteq> [] \<or>
     rmatch (Seq (Lit ''-'') (Rep Space 1 True)) False None l \<noteq> []"
    unfolding marker_re_def rmatch_Seq_Bol by simp
  also have "\<dots> \<longleftrightarrow> has_marker l"
    unfolding rep_lit_rep_match_iff lit_rep_match_iff ordered_marker_iff dash_marker_iff
    by (simp add: has_marker_def Let_def)
  finally show ?thesis .
qed

lemma bullet_match_first_line:
  assumes "l \<noteq> []" "\<not> isspace (hd l)" "\<forall>c\<in>set l. \<not> islinebreak c"
    "rest = [] \<or> islinebreak (hd rest)"
  shows "bullet_match_loop (splitlines (l @ rest)) = re_match marker_re False l"
proof -
  from splitlines_first_line [OF assms(1,3,4)] obtain ls where ls: "splitlines (l @ rest) = l # ls"
    by blast
  from assms(1) have "hd l \<in> set l" by simp
  then have "strip l \<noteq> []" using assms(2) by (rule strip_not_Nil)
  with ls show ?thesis by simp
qed

lemma bracket_free_no_link:
  assumes "CHR ''['' \<notin> set s"
  shows "re_search_from link_re ml p s = None"
proof (rule re_search_from_no_suffix)
  fix q s' assume suf: "suffix s' s"
  show "rmatch link_re ml q s' = []"
  proof (rule ccontr)
    assume "rmatch link_re ml q s' \<noteq> []"
    then obtain m g where "(m, g) \<in> set (rmatch link_re ml q s')"
      unfolding nonempty_has_member by blast
    then obtain t url where "m = ''['' @ t @ '']('' @ url @ '')''" "prefix m s'"
      using link_match_shape by blast
    then have "CHR ''['' \<in> set s'" by (auto simp: prefix_def)
    with suf have "CHR ''['' \<in> set s" using set_mono_suffix by blast
    with assms show False by blast
  qed
qed

lemma bracket_free_formatting:
  assumes "CHR ''['' \<notin> set s"
  shows "process_inline_formatting s =
    re_sub italic_re False italic_tpl (re_sub bold_re False bold_tpl s)"
proof -
  have "set (re_sub bold_re False bold_tpl s) \<subseteq> set s \<union> tpl_chars bold_tpl"
    unfolding re_sub_def by (rule re_sub_from_chars)
  with assms have b: "CHR ''['' \<notin> set (re_sub bold_re False bold_tpl s)"
    by (auto simp: bold_tpl_def)
  have "set (re_sub italic_re False italic_tpl (re_sub bold_re False bold_tpl s)) \<subseteq>
      set (re_sub bold_re False bold_tpl s) \<union> tpl_chars italic_tpl"
    unfolding re_sub_def by (rule re_sub_from_chars)
  with b have "CHR ''['' \<notin> set (re_sub italic_re False italic_tpl (re_sub bold_re False bold_tpl s))"
    by (auto simp: italic_tpl_def)
  then have "re_search_from link_re False None
      (re_sub italic_re False italic_tpl (re_sub bold_re False bold_tpl s)) = None"
    by (rule bracket_free_no_link)
  then show ?thesis
    by (simp add: process_inline_formatting_def re_sub_def [of link_re] re_sub_no_match)
qed

lemma bracket_free_lines:
  assumes "CHR ''['' \<notin> set a" "CHR ''['' \<notin> set b"
  shows "process_inline_formatting (a @ CHR 0x0A # b) =
    process_inline_formatting a @ CHR 0x0A # process_inline_formatting b"
proof -
  from assms have "CHR ''['' \<notin> set (a @ CHR 0x0A # b)" by simp
  then have "process_inline_formatting (a @ CHR 0x0A # b) =
      re_sub italic_re False italic_tpl (re_sub bold_re False bold_tpl (a @ CHR 0x0A # b))"
    by (rule bracket_free_formatting)
  also have "\<dots> = re_sub italic_re False italic_tpl
      (re_sub bold_re False bold_tpl a @ CHR 0x0A # re_sub bold_re False bold_tpl b)"
    unfolding re_sub_def [of bold_re]
    by (simp only: re_sub_from_lines [OF nl_free_bold min_len_bold])
  also have "\<dots> = re_sub italic_re False italic_tpl (re_sub bold_re False bold_tpl a) @
      CHR 0x0A # re_sub italic_re False italic_tpl (re_sub bold_re False bold_tpl b)"
    unfolding re_sub_def [of italic_re]
    by (simp only: re_sub_from_lines [OF nl_free_italic min_len_italic])
  also have "\<dots> = process_inline_formatting a @ CHR 0x0A # process_inline_formatting b"
    by (simp only: bracket_free_formatting [OF assms(1)] bracket_free_formatting [OF assms(2)])
  finally show ?thesis .
qed

lemma first_line_decides_block:
  assumes "l \<noteq> []" "\<not> isspace (hd l)" "\<forall>c\<in>set l. \<not> islinebreak c"
    "rest = [] \<or> islinebreak (hd rest)"
  shows "body_elements parses (l @ rest) =
      (if has_marker l then
         (case bullet_items_loop parses (splitlines (l @ rest)) [] of
            Inl e \<Rightarrow> Inl e
          | Inr bullet_items \<Rightarrow> Inr [ListFlowable bullet_items ''bullet'' 20])
       else
         (case new_Paragraph parses (l @ rest) body_style of
            Inl e \<Rightarrow> Inl e
          | Inr paragraph \<Rightarrow> Inr [paragraph]))"
proof -
  have "bullet_match_loop (splitlines (l @ rest)) \<noteq> None \<longleftrightarrow> has_marker l"
    using bullet_match_first_line [OF assms] marker_match_iff [of l] by simp
  moreover from assms(1) have "l @ rest \<noteq> []" by simp
  ultimately show ?thesis
    by (simp add: body_elements_def Let_def)
qed

lemma concat_map_hd:
  assumes "xs = x # xs'" "f x = y # ys"
  shows "\<exists>zs. concat (map f xs) = y # zs"
  using assms by simp

lemma rev_filter_prefixes_hd:
  assumes "P t"
  shows "\<exists>zs. rev (filter P (prefixes t)) = t # zs"
proof (cases t rule: rev_cases)
  case Nil
  with assms show ?thesis by simp
next
  case (snoc ys y)
  with assms show ?thesis by simp
qed

lemma first_is_Rep_greedy:
  assumes "n \<le> length (takeWhile (cmem c) s)"
  shows "first_is (Rep c n True) ml p s (takeWhile (cmem c) s, [])"
proof -
  from rev_filter_prefixes_hd [of "\<lambda>m. n \<le> length m" "takeWhile (cmem c) s", OF assms]
  obtain zs where "rev (filter (\<lambda>m. n \<le> length m) (prefixes (takeWhile (cmem c) s))) =
      takeWhile (cmem c) s # zs" ..
  then show ?thesis by (simp add: first_is_def)
qed

lemma first_is_Seq:
  assumes "first_is a ml p s (m1, g1)"
    and "first_is b ml (after p m1) (drop (length m1) s) (m2, g2)"
  shows "first_is (Seq a b) ml p s (m1 @ m2, g1 @ g2)"
proof -
  from assms(1) obtain xs where a: "rmatch a ml p s = (m1, g1) # xs"
    by (auto simp: first_is_def)
  from assms(2) obtain ys where b: "rmatch b ml (after p m1) (drop (length m1) s) = (m2, g2) # ys"
    by (auto simp: first_is_def)
  show ?thesis
    unfolding first_is_def rmatch.simps a by (simp add: b)
qed

lemma first_is_Lit:
  assumes "prefix cs s"
  shows "first_is (Lit cs) ml p s (cs, [])"
  using assms by (simp add: first_is_def rmatch_Lit)

lemma first_is_Grp:
  assumes "first_is r ml p s (m, g)"
  shows "first_is (Grp r) ml p s (m, m # g)"
  using assms by (auto simp: first_is_def)

lemma first_is_Bol:
  assumes "p = None \<or> (ml \<and> p = Some (CHR 0x0A))"
  shows "first_is Bol ml p s ([], [])"
  using assms by (auto simp: first_is_def)

lemma first_is_Eol:
  assumes "s = [] \<or> hd s = CHR 0x0A"
  shows "first_is Eol True p s ([], [])"
  using assms by (auto simp: first_is_def)

lemma takeWhile_whole:
  assumes "\<forall>x\<in>set a. P x" "rest = [] \<or> \<not> P (hd rest)"
  shows "takeWhile P (a @ rest) = a"
  using assms by (cases rest) (simp_all add: takeWhile_append_stop)

lemma cmem_Space: "cmem Space = isspace"
  by (rule ext) simp

lemma heading_first_match:
  assumes p: "p = None \<or> p = Some (CHR 0x0A)"
    and h: "CHR 0x0A \<notin> set h" "c \<in> set h" "\<not> isspace c"
    and rest: "rest = [] \<or> hd rest = CHR 0x0A"
  shows "first_is heading_re True p (''##'' @ h @ rest) (''##'' @ h, [''##'' @ h])"
proof -
  define w where "w = takeWhile isspace h"
  define h' where "h' = dropWhile isspace h"
  have hw: "h = w @ h'" by (simp add: w_def h'_def)
  from h(2,3) have h'ne: "h' \<noteq> []"
    unfolding h'_def by (metis dropWhile_eq_Nil_conv)
  from h(1) hw have h'nl: "CHR 0x0A \<notin> set h'" by auto
  from h(2,3) have tw: "takeWhile (cmem Space) (h @ rest) = w"
    unfolding w_def cmem_Space by (simp add: takeWhile_append1)
  have td: "takeWhile (cmem Dot) (h' @ rest) = h'"
    using h'nl rest by (intro takeWhile_whole) auto
  \<comment> \<open>\<open>.+\<close> takes the rest of the line, and \<open>$\<close> holds there\<close>
  have dot: "first_is (Rep Dot 1 True) True q (h' @ rest) (h', [])" for q
    using first_is_Rep_greedy [of 1 Dot "h' @ rest" True q] h'ne td
    by (cases h') simp_all
  have eol: "first_is Eol True q (drop (length h') (h' @ rest)) ([], [])" for q
    using rest by (intro first_is_Eol) simp
  have z: "first_is (Seq (Rep Dot 1 True) Eol) True q (h' @ rest) (h', [])" for q
    using first_is_Seq [OF dot eol] by simp
  \<comment> \<open>\<open>\s*\<close> takes the white space before the heading text\<close>
  have sp: "first_is (Rep Space 0 True) True q (h @ rest) (w, [])" for q
    using first_is_Rep_greedy [of 0 Space "h @ rest" True q] tw by simp
  have z': "first_is (Seq (Rep Dot 1 True) Eol) True q (drop (length w) (h @ rest)) (h', [])" for q
    using z by (simp add: hw)
  have y: "first_is (Seq (Rep Space 0 True) (Seq (Rep Dot 1 True) Eol)) True q (h @ rest) (h, [])" for q
    using first_is_Seq [OF sp z'] hw by simp
  have lit: "first_is (Lit ''##'') True p (''##'' @ h @ rest) (''##'', [])"
    by (intro first_is_Lit) simp
  have y': "first_is (Seq (Rep Space 0 True) (Seq (Rep Dot 1 True) Eol)) True q
      (drop (length ''##'') (''##'' @ h @ rest)) (h, [])" for q
    using y by simp
  have x: "first_is (Seq (Lit ''##'') (Seq (Rep Space 0 True) (Seq (Rep Dot 1 True) Eol))) True p
      (''##'' @ h @ rest) (''##'' @ h, [])"
    using first_is_Seq [OF lit y'] by simp
  have bol: "first_is Bol True p (''##'' @ h @ rest) ([], [])"
    using p by (intro first_is_Bol) auto
  have x': "first_is (Seq (Lit ''##'') (Seq (Rep Space 0 True) (Seq (Rep Dot 1 True) Eol))) True
      (after p []) (drop (length ([] :: string)) (''##'' @ h @ rest)) (''##'' @ h, [])"
    using x by (simp add: after_def)
  have "first_is (Seq Bol (Seq (Lit ''##'') (Seq (Rep Space 0 True) (Seq (Rep Dot 1 True) Eol)))) True p
      (''##'' @ h @ rest) ([] @ ''##'' @ h, [] @ [])"
    using bol x' by (rule first_is_Seq)
  then have "first_is (Seq Bol (Seq (Lit ''##'') (Seq (Rep Space 0 True) (Seq (Rep Dot 1 True) Eol)))) True p
      (''##'' @ h @ rest) (''##'' @ h, [])"
    by simp
  then show ?thesis
    unfolding heading_re_def by (rule first_is_Grp)
qed

lemma join_nl_Cons: "ls \<noteq> [] \<Longrightarrow> join_nl (l # ls) = l @ CHR 0x0A # join_nl ls"
  by (cases ls) simp_all

lemma lines_from_not_Nil: "lines_from cur s \<noteq> []"
  by (induction s arbitrary: cur) auto

lemma join_lines_from: "join_nl (lines_from cur s) = cur @ s"
  by (induction s arbitrary: cur) (simp_all add: join_nl_Cons lines_from_not_Nil)

lemma join_lines_nl: "join_nl (lines_nl s) = s"
  by (simp add: lines_nl_def join_lines_from)

lemma lines_from_no_nl:
  "l \<in> set (lines_from cur s) \<Longrightarrow> CHR 0x0A \<notin> set cur \<Longrightarrow> CHR 0x0A \<notin> set l"
proof (induction s arbitrary: cur)
  case Nil
  then show ?case by simp
next
  case (Cons c s)
  show ?case
  proof (cases "c = CHR 0x0A")
    case True
    with Cons.prems(1) consider "l = cur" | "l \<in> set (lines_from [] s)" by auto
    then show ?thesis
    proof cases
      case 1
      with Cons.prems(2) show ?thesis by simp
    next
      case 2
      then show ?thesis by (rule Cons.IH) simp
    qed
  next
    case False
    with Cons.prems(1) have "l \<in> set (lines_from (cur @ [c]) s)" by simp
    then show ?thesis
      by (rule Cons.IH) (use False Cons.prems(2) in simp)
  qed
qed

lemma lines_nl_no_nl: "l \<in> set (lines_nl s) \<Longrightarrow> CHR 0x0A \<notin> set l"
  using lines_from_no_nl [of l "[]" s] by (simp add: lines_nl_def)

lemma after_Cons: "after p (c # t) = after (Some c) t"
  by (simp add: after_def)

lemma re_split_from_skip:
  assumes "0 < min_len r"
    and "\<And>k. k < length t \<Longrightarrow> rmatch r ml (after p (take k t)) (drop k t @ rest) = []"
  shows "re_split_from r ml False p cur (t @ rest) =
    re_split_from r ml False (after p t) (cur @ t) rest"
  using assms(2)
proof (induction t arbitrary: p cur)
  case Nil
  show ?case by (simp add: after_def)
next
  case (Cons c t)
  from Cons.prems [of 0] have 0: "rmatch r ml p (c # t @ rest) = []"
    by (simp add: after_def)
  have "re_split_from r ml False (Some c) (cur @ [c]) (t @ rest) =
      re_split_from r ml False (after (Some c) t) ((cur @ [c]) @ t) rest"
  proof (rule Cons.IH)
    fix k assume "k < length t"
    then have "rmatch r ml (after p (take (Suc k) (c # t))) (drop (Suc k) (c # t) @ rest) = []"
      by (intro Cons.prems) simp
    then show "rmatch r ml (after (Some c) (take k t)) (drop k t @ rest) = []"
      by (simp add: after_Cons)
  qed
  then show ?case
    by (subst re_split_from_unfold [OF assms(1)]) (simp add: 0 after_Cons)
qed

lemma heading_skip:
  assumes "\<not> prefix ''##'' (t @ rest) \<or> \<not> (p = None \<or> p = Some (CHR 0x0A))"
    and "CHR 0x0A \<notin> set (butlast t)"
  shows "re_split_from heading_re True False p cur (t @ rest) =
    re_split_from heading_re True False (after p t) (cur @ t) rest"
proof (rule re_split_from_skip [OF min_len_heading])
  fix k assume k: "k < length t"
  show "rmatch heading_re True (after p (take k t)) (drop k t @ rest) = []"
  proof (cases k)
    case 0
    with assms(1) show ?thesis
      using heading_match_line_start [of p "t @ rest"] by (auto simp: after_def)
  next
    case (Suc j)
    with k have j: "j < length (butlast t)" by simp
    from Suc k have "take k t \<noteq> []" by auto
    moreover from Suc k have "last (take k t) = t ! j"
      by (simp add: take_Suc_conv_app_nth)
    moreover from j have "t ! j = butlast t ! j" by (simp add: nth_butlast)
    moreover from j have "butlast t ! j \<in> set (butlast t)" by (rule nth_mem)
    ultimately have "after p (take k t) = Some (t ! j)" "t ! j \<noteq> CHR 0x0A"
      using assms(2) by (auto simp: after_def)
    then show ?thesis
      using heading_match_line_start [of "Some (t ! j)" "drop k t @ rest"] by auto
  qed
qed

lemma heading_split_Nil: "re_split_from heading_re True False p cur [] = [cur]"
proof -
  have "rmatch heading_re True p [] = []"
    using heading_match_line_start [of p "[]"] by auto
  then show ?thesis
    by (subst re_split_from_unfold [OF min_len_heading]) simp
qed

lemma heading_split_at_heading:
  assumes p: "p = None \<or> p = Some (CHR 0x0A)"
    and l: "prefix ''##'' l" "CHR 0x0A \<notin> set l" "c \<in> set (drop 2 l)" "\<not> isspace c"
    and rest: "rest = [] \<or> hd rest = CHR 0x0A"
  shows "re_split_from heading_re True False p cur (l @ rest) =
    cur # l # re_split_from heading_re True False (Some (last l)) [] rest"
proof -
  from l(1) have lh: "l = ''##'' @ drop 2 l" by (auto simp: prefix_def)
  from l(2) have "CHR 0x0A \<notin> set (drop 2 l)" by (auto dest: in_set_dropD)
  from heading_first_match [OF p this l(3,4) rest]
  obtain zs where "rmatch heading_re True p (''##'' @ drop 2 l @ rest) = (''##'' @ drop 2 l, [''##'' @ drop 2 l]) # zs"
    by (auto simp: first_is_def)
  with lh have m: "rmatch heading_re True p (l @ rest) = (l, [l]) # zs"
    by (metis append.assoc)
  show ?thesis
    by (subst re_split_from_unfold [OF min_len_heading]) (simp add: m)
qed

lemma not_prefix_hashes_line:
  assumes "\<not> prefix ''##'' l"
  shows "\<not> prefix ''##'' (l @ CHR 0x0A # r)"
proof (cases l)
  case Nil
  then show ?thesis by simp
next
  case (Cons a l')
  with assms show ?thesis by (cases l') auto
qed

lemma heading_split_lines:
  assumes "ls \<noteq> []"
    and "\<forall>l\<in>set ls. CHR 0x0A \<notin> set l \<and> (prefix ''##'' l \<longrightarrow> (\<exists>c\<in>set (drop 2 l). \<not> isspace c))"
    and "p = None \<or> p = Some (CHR 0x0A)"
  shows "re_split_from heading_re True False p cur (join_nl ls) = spec_parts cur ls"
  using assms
proof (induction cur ls arbitrary: p rule: spec_parts.induct)
  case (1 cur)
  then show ?case by simp
next
  case (2 cur l)
  from "2.prems"(2) have nl: "CHR 0x0A \<notin> set l" by simp
  show ?case
  proof (cases "prefix ''##'' l")
    case True
    with "2.prems"(2) obtain c where c: "c \<in> set (drop 2 l)" "\<not> isspace c" by auto
    have "re_split_from heading_re True False p cur (l @ []) =
        cur # l # re_split_from heading_re True False (Some (last l)) [] []"
      using "2.prems"(3) True nl c by (intro heading_split_at_heading) simp_all
    with True show ?thesis by (simp add: heading_split_Nil)
  next
    case False
    have "re_split_from heading_re True False p cur (l @ []) =
        re_split_from heading_re True False (after p l) (cur @ l) []"
    proof (rule heading_skip)
      show "\<not> prefix ''##'' (l @ []) \<or> \<not> (p = None \<or> p = Some (CHR 0x0A))"
        using False by simp
      show "CHR 0x0A \<notin> set (butlast l)" using nl by (auto dest: in_set_butlastD)
    qed
    with False show ?thesis by (simp add: heading_split_Nil)
  qed
next
  case (3 cur l l' ls)
  from "3.prems"(2) have nl: "CHR 0x0A \<notin> set l" by simp
  from "3.prems"(2) have rest: "\<forall>l\<in>set (l' # ls). CHR 0x0A \<notin> set l \<and>
      (prefix ''##'' l \<longrightarrow> (\<exists>c\<in>set (drop 2 l). \<not> isspace c))"
    by simp
  let ?J = "join_nl (l' # ls)"
  have j: "join_nl (l # l' # ls) = l @ CHR 0x0A # ?J" by simp
  show ?case
  proof (cases "prefix ''##'' l")
    case True
    with "3.prems"(2) obtain c where c: "c \<in> set (drop 2 l)" "\<not> isspace c" by auto
    from True have "l \<noteq> []" by auto
    then have "last l \<in> set l" by simp
    with nl have last: "last l \<noteq> CHR 0x0A" by auto
    have 1: "re_split_from heading_re True False p cur (l @ CHR 0x0A # ?J) =
        cur # l # re_split_from heading_re True False (Some (last l)) [] (CHR 0x0A # ?J)"
      using "3.prems"(3) True nl c by (intro heading_split_at_heading) simp_all
    have "re_split_from heading_re True False (Some (last l)) [] ([CHR 0x0A] @ ?J) =
        re_split_from heading_re True False (after (Some (last l)) [CHR 0x0A]) ([] @ [CHR 0x0A]) ?J"
    proof (rule heading_skip)
      show "\<not> prefix ''##'' ([CHR 0x0A] @ ?J) \<or>
          \<not> (Some (last l) = None \<or> Some (last l) = Some (CHR 0x0A))"
        using last by simp
      show "CHR 0x0A \<notin> set (butlast [CHR 0x0A])" by simp
    qed
    then have 2: "re_split_from heading_re True False (Some (last l)) [] (CHR 0x0A # ?J) =
        re_split_from heading_re True False (Some (CHR 0x0A)) [CHR 0x0A] ?J"
      by (simp add: after_def)
    have 3: "re_split_from heading_re True False (Some (CHR 0x0A)) [CHR 0x0A] ?J =
        spec_parts [CHR 0x0A] (l' # ls)"
      using True rest by (intro "3.IH"(1)) simp_all
    from 1 2 3 True show ?thesis by (simp only: j spec_parts.simps if_True)
  next
    case False
    have "re_split_from heading_re True False p cur ((l @ [CHR 0x0A]) @ ?J) =
        re_split_from heading_re True False (after p (l @ [CHR 0x0A])) (cur @ l @ [CHR 0x0A]) ?J"
    proof (rule heading_skip)
      show "\<not> prefix ''##'' ((l @ [CHR 0x0A]) @ ?J) \<or> \<not> (p = None \<or> p = Some (CHR 0x0A))"
        using not_prefix_hashes_line [OF False, of ?J] by simp
      show "CHR 0x0A \<notin> set (butlast (l @ [CHR 0x0A]))" using nl by simp
    qed
    then have 1: "re_split_from heading_re True False p cur (l @ CHR 0x0A # ?J) =
        re_split_from heading_re True False (Some (CHR 0x0A)) (cur @ l @ [CHR 0x0A]) ?J"
      by (simp add: after_def)
    have 2: "re_split_from heading_re True False (Some (CHR 0x0A)) (cur @ l @ [CHR 0x0A]) ?J =
        spec_parts (cur @ l @ [CHR 0x0A]) (l' # ls)"
      using False rest by (intro "3.IH"(2)) simp_all
    from 1 2 False show ?thesis by (simp only: j spec_parts.simps if_False)
  qed
qed

lemma sections_loop_collect:
  "sections_loop parses sp parts i acc =
     (case collect (map (\<lambda>(h, b). section_elements parses sp h b) (pairs (drop i parts))) of
        Inl e \<Rightarrow> Inl e
      | Inr es \<Rightarrow> Inr (acc @ es))"
proof (induction parses sp parts i acc rule: sections_loop.induct)
  case (1 parses sp parts i acc)
  show ?case
  proof (cases "i < length parts")
    case False
    then show ?thesis by (subst sections_loop.simps) simp
  next
    case True
    note i = this
    define b where "b = (if i + 1 < length parts then parts ! (i + 1) else [])"
    have d: "pairs (drop i parts) = (parts ! i, b) # pairs (drop (i + 2) parts)"
    proof (cases "i + 1 < length parts")
      case True
      then have "drop i parts = parts ! i # parts ! (i + 1) # drop (i + 2) parts"
        using i by (metis Cons_nth_drop_Suc Suc_eq_plus1 add_Suc_right one_add_one)
      with True show ?thesis by (simp add: b_def)
    next
      case False
      with i have "drop i parts = [parts ! i]" "drop (i + 2) parts = []"
        by (simp_all add: Cons_nth_drop_Suc [symmetric])
      with False show ?thesis by (simp add: b_def)
    qed
    show ?thesis
    proof (cases "section_elements parses sp (parts ! i) b")
      case (Inl e)
      with i d show ?thesis
        by (subst sections_loop.simps, fold b_def) simp
    next
      case (Inr new)
      have "sections_loop parses sp parts (i + 2) (acc @ new) =
          (case collect (map (\<lambda>(h, b). section_elements parses sp h b) (pairs (drop (i + 2) parts))) of
             Inl e \<Rightarrow> Inl e
           | Inr es \<Rightarrow> Inr ((acc @ new) @ es))"
        using i Inr by (intro 1) (simp_all add: b_def)
      with i d Inr show ?thesis
        by (subst sections_loop.simps, fold b_def) (simp split: sum.splits)
    qed
  qed
qed

lemma strip_snoc_space:
  assumes "isspace c"
  shows "strip (x @ [c]) = strip x"
proof (cases "\<forall>y\<in>set x. isspace y")
  case True
  then have a: "dropWhile isspace x = []"
    by simp
  from True have "dropWhile isspace (x @ [c]) = dropWhile isspace [c]"
    by (intro dropWhile_append2) simp
  with assms have b: "dropWhile isspace (x @ [c]) = []"
    by simp
  show ?thesis by (simp only: strip_def a b)
next
  case False
  then obtain y where "y \<in> set x" "\<not> isspace y" by blast
  then have "dropWhile isspace (x @ [c]) = dropWhile isspace x @ [c]"
    by (simp add: dropWhile_append1)
  with assms show ?thesis by (simp add: strip_def)
qed

lemma isspace_newline: "isspace (CHR 0x0A)"
  by (simp add: isspace_def)

lemma section_elements_strip:
  "strip b = strip b' \<Longrightarrow>
     section_elements parses sp h b = section_elements parses sp h b'"
  by (simp add: section_elements_def Let_def cong: sum.case_cong)

lemma spec_parts_not_Nil: "spec_parts cur ls \<noteq> []"
  by (induction cur ls rule: spec_parts.induct) auto

lemma hd_spec_parts_strip:
  assumes "ls \<noteq> []"
  shows "strip (hd (spec_parts (c @ [CHR 0x0A]) ls)) =
    strip (c @ body_text (takeWhile (\<lambda>x. \<not> prefix ''##'' x) ls))"
  using assms
proof (induction ls arbitrary: c)
  case Nil
  then show ?case by simp
next
  case (Cons l ls)
  show ?case
  proof (cases "prefix ''##'' l")
    case True
    then have "hd (spec_parts (c @ [CHR 0x0A]) (l # ls)) = c @ [CHR 0x0A]"
      by (cases ls) simp_all
    with True show ?thesis
      by (simp add: body_text_def strip_snoc_space isspace_newline)
  next
    case False
    show ?thesis
    proof (cases ls)
      case Nil
      with False show ?thesis by (simp add: body_text_def)
    next
      case (Cons l' ls')
      have "strip (hd (spec_parts ((c @ CHR 0x0A # l) @ [CHR 0x0A]) ls)) =
          strip ((c @ CHR 0x0A # l) @ body_text (takeWhile (\<lambda>x. \<not> prefix ''##'' x) ls))"
        using Cons by (intro Cons.IH) simp
      with False Cons show ?thesis by (simp add: body_text_def)
    qed
  qed
qed

lemma collect_pairs_Cons:
  "collect (map (\<lambda>(h, b). section_elements parses sp h b) (pairs (h # b # r))) =
     (case section_elements parses sp h b of
        Inl e \<Rightarrow> Inl e
      | Inr a \<Rightarrow>
          (case collect (map (\<lambda>(h, b). section_elements parses sp h b) (pairs r)) of
             Inl e \<Rightarrow> Inl e
           | Inr b \<Rightarrow> Inr (a @ b)))"
  by simp

lemma collect_sections_Cons:
  "prefix ''##'' l \<Longrightarrow>
   collect (map (\<lambda>(l, b). section_elements parses sp l (body_text b)) (spec_sections (l # ls))) =
     (case section_elements parses sp l (body_text (takeWhile (\<lambda>x. \<not> prefix ''##'' x) ls)) of
        Inl e \<Rightarrow> Inl e
      | Inr a \<Rightarrow>
          (case collect (map (\<lambda>(l, b). section_elements parses sp l (body_text b))
                  (spec_sections ls)) of
             Inl e \<Rightarrow> Inl e
           | Inr b \<Rightarrow> Inr (a @ b)))"
  by simp

lemma spec_parts_sections:
  assumes "ls \<noteq> []"
  shows "collect (map (\<lambda>(h, b). section_elements parses sp h b) (pairs (tl (spec_parts cur ls)))) =
    collect (map (\<lambda>(l, b). section_elements parses sp l (body_text b)) (spec_sections ls))"
  using assms
proof (induction cur ls rule: spec_parts.induct)
  case (1 cur)
  then show ?case by simp
next
  case (2 cur l)
  show ?case by (simp add: body_text_def)
next
  case (3 cur l l' ls)
  show ?case
  proof (cases "prefix ''##'' l")
    case True
    let ?R = "spec_parts [CHR 0x0A] (l' # ls)"
    obtain b0 R' where R: "?R = b0 # R'"
      using spec_parts_not_Nil [of "[CHR 0x0A]" "l' # ls"] by (cases ?R) auto
    have "strip (hd (spec_parts ([] @ [CHR 0x0A]) (l' # ls))) =
        strip ([] @ body_text (takeWhile (\<lambda>x. \<not> prefix ''##'' x) (l' # ls)))"
      by (rule hd_spec_parts_strip) simp
    with R have "strip b0 = strip (body_text (takeWhile (\<lambda>x. \<not> prefix ''##'' x) (l' # ls)))"
      by simp
    then have se: "section_elements parses sp l b0 =
        section_elements parses sp l (body_text (takeWhile (\<lambda>x. \<not> prefix ''##'' x) (l' # ls)))"
      by (rule section_elements_strip)
    have ih: "collect (map (\<lambda>(h, b). section_elements parses sp h b) (pairs R')) =
        collect (map (\<lambda>(l, b). section_elements parses sp l (body_text b)) (spec_sections (l' # ls)))"
      using "3.IH"(1) [OF True] R by simp
    have "tl (spec_parts cur (l # l' # ls)) = l # b0 # R'"
      using True R by simp
    then show ?thesis
      by (simp only: collect_pairs_Cons collect_sections_Cons [OF True] se ih)
  next
    case False
    with "3.IH"(2) show ?thesis by simp
  qed
qed

lemma split_by_heading_lines:
  assumes "font_path \<in> fs"
    and "\<forall>l\<in>set (lines_nl content).
           prefix ''##'' l \<longrightarrow> (\<exists>c\<in>set (drop 2 l). \<not> isspace c)"
  shows "create_pdf_reportlab parses build fs content file_name sp =
     (case collect (map (\<lambda>(l, b). section_elements parses sp l (body_text b))
               (spec_sections (lines_nl content))) of
        Inl e \<Rightarrow> Inl e
      | Inr es \<Rightarrow> Inr (build es))"
proof -
  let ?ls = "lines_nl content"
  have ne: "?ls \<noteq> []" by (rule lines_nl_not_Nil)
  have "\<forall>l\<in>set ?ls. CHR 0x0A \<notin> set l \<and>
      (prefix ''##'' l \<longrightarrow> (\<exists>c\<in>set (drop 2 l). \<not> isspace c))"
    using assms(2) lines_nl_no_nl by blast
  then have "re_split_from heading_re True False None [] (join_nl ?ls) = spec_parts [] ?ls"
    using ne by (intro heading_split_lines) simp_all
  then have parts: "re_split heading_re True content = spec_parts [] ?ls"
    by (simp add: re_split_def join_lines_nl)
  have "sections_loop parses sp (spec_parts [] ?ls) 1 [] =
      (case collect (map (\<lambda>(h, b). section_elements parses sp h b)
                (pairs (tl (spec_parts [] ?ls)))) of
         Inl e \<Rightarrow> Inl e
       | Inr es \<Rightarrow> Inr es)"
    by (simp add: sections_loop_collect drop_Suc cong: sum.case_cong)
  also have "\<dots> =
      (case collect (map (\<lambda>(l, b). section_elements parses sp l (body_text b))
                (spec_sections ?ls)) of
         Inl e \<Rightarrow> Inl e
       | Inr es \<Rightarrow> Inr es)"
    by (simp only: spec_parts_sections [OF ne])
  finally show ?thesis
    using assms(1) by (simp add: create_pdf_reportlab_def parts split: sum.splits)
qed

lemma stray_text_lines:
  "lines_nl ''stray text\<newline>## Only\<newline>Body'' = [''stray text'', ''## Only'', ''Body'']"
  by code_simp

lemma stray_text_section:
  assumes "parses ''Only''" "parses ''Body''"
  shows "section_elements parses sp ''## Only'' (body_text [''Body'']) =
    Inr [Paragraph ''Only'' heading_style, Spacer 1 sp, Paragraph ''Body'' body_style,
      Spacer 1 12]"
proof -
  have h: "process_inline_formatting (strip (lstrip_chars ''#'' (strip ''## Only''))) = ''Only''"
    by code_simp
  have c: "process_inline_formatting (strip (body_text [''Body''])) = ''Body''"
    by code_simp
  have l: "bullet_match_loop (splitlines ''Body'') = None" by code_simp
  have b: "body_elements parses ''Body'' = Inr [Paragraph ''Body'' body_style]"
    using assms(2) by (simp add: body_elements_def new_Paragraph_def l)
  show ?thesis
    using assms(1) by (simp add: section_elements_def new_Paragraph_def h c b)
qed

section \<open>The claims\<close>

text \<open>
  C6. When the font file does not exist, \<open>create_pdf_reportlab\<close> raises
  \<open>FileNotFoundError\<close> whatever the content is: the result is the error and no document,
  and the check comes before any paragraph is made and before the document builder is
  called.
\<close>

theorem missing_font_raises:
  "font_path \<notin> fs \<Longrightarrow>
     create_pdf_reportlab parses build fs content file_name heading_to_content_space =
       Inl (FileNotFoundError (''TTF Font file not found: '' @ font_path))"
  by (simp add: create_pdf_reportlab_def)

theorem missing_font_raises_witness:
  "create_pdf_reportlab (\<lambda>t. True) (\<lambda>elements. elements) {} ''## Intro\<newline>Hello'' ''out.pdf'' 24 =
     Inl (FileNotFoundError (''TTF Font file not found: '' @ font_path))"
  using missing_font_raises [of "{}" "\<lambda>t. True" "\<lambda>elements. elements" "''## Intro\<newline>Hello''"
      "''out.pdf''" 24]
  by simp

text \<open>
  C7. A text in which none of the three patterns (bold, italic, link with a scheme)
  occurs is returned unchanged by \<open>process_inline_formatting\<close>. That a pattern does not
  occur is what \<open>re.search\<close> reports.
\<close>

theorem marker_free_unchanged:
  assumes "re_search bold_re False s = None"
    and "re_search italic_re False s = None"
    and "re_search link_re False s = None"
  shows "process_inline_formatting s = s"
  using assms
  by (simp add: process_inline_formatting_def re_sub_def re_search_def re_sub_no_match)

theorem marker_free_unchanged_witness:
  "re_search bold_re False ''a * b [c](d) <b>e</b>'' = None \<and>
   re_search italic_re False ''a * b [c](d) <b>e</b>'' = None \<and>
   re_search link_re False ''a * b [c](d) <b>e</b>'' = None \<and>
   process_inline_formatting ''a * b [c](d) <b>e</b>'' = ''a * b [c](d) <b>e</b>''"
proof -
  have b: "re_search bold_re False ''a * b [c](d) <b>e</b>'' = None" by code_simp
  have i: "re_search italic_re False ''a * b [c](d) <b>e</b>'' = None" by code_simp
  have l: "re_search link_re False ''a * b [c](d) <b>e</b>'' = None" by code_simp
  from b i l marker_free_unchanged [OF b i l] show ?thesis by simp
qed

text \<open>
  C8. A content in which no line begins with \<open>##\<close> (the lines are the runs between
  newline characters; the empty text is one such content) has no heading match: the
  split returns the content as its only part, no section is rendered, no paragraph is
  made, and the document is built from the empty list of flowables. No error is raised
  when the font exists.
\<close>

theorem no_heading_no_sections:
  assumes "font_path \<in> fs"
    and "\<forall>l\<in>set (lines_nl content). \<not> prefix ''##'' l"
  shows "re_split heading_re True content = [content] \<and>
    create_pdf_reportlab parses build fs content file_name heading_to_content_space = Inr (build [])"
proof -
  have "\<not> prefix ''##'' content"
    using assms(2) lines_nl_not_Nil [of content] prefix_hashes_hd_lines [of content]
    by (cases "lines_nl content") auto
  moreover have "\<forall>l\<in>set (tl (lines_nl content)). \<not> prefix ''##'' l"
    using assms(2) lines_nl_not_Nil [of content] by (cases "lines_nl content") auto
  ultimately have "re_search_from heading_re True None content = None"
    by (simp add: heading_no_match)
  then have parts: "re_split heading_re True content = [content]"
    by (simp add: re_split_def re_split_no_match)
  have "sections_loop parses heading_to_content_space [content] 1 [] = Inr []"
    by (subst sections_loop.simps) simp
  with parts assms(1) show ?thesis
    by (simp add: create_pdf_reportlab_def)
qed

theorem no_heading_no_sections_witness:
  "create_pdf_reportlab (\<lambda>t. False) (\<lambda>elements. elements) {font_path}
     ''stray # text\<newline> ## indented\<newline>a ## b'' ''out.pdf'' 24 = Inr [] \<and>
   create_pdf_reportlab (\<lambda>t. False) (\<lambda>elements. elements) {font_path} [] ''out.pdf'' 24 = Inr []"
proof -
  have a: "\<forall>l\<in>set (lines_nl ''stray # text\<newline> ## indented\<newline>a ## b''). \<not> prefix ''##'' l"
    by (simp add: lines_nl_def)
  have b: "\<forall>l\<in>set (lines_nl []). \<not> prefix ''##'' l"
    by (simp add: lines_nl_def)
  have f: "font_path \<in> {font_path}" by simp
  show ?thesis
    using no_heading_no_sections [OF f a, of "\<lambda>t. False" "\<lambda>elements. elements" "''out.pdf''" 24]
      no_heading_no_sections [OF f b, of "\<lambda>t. False" "\<lambda>elements. elements" "''out.pdf''" 24]
    by simp
qed

text \<open>
  C10. The bold and the italic substitution work line by line: on two texts joined by a
  newline each returns the two results joined by the newline, so no pair of markers is
  matched across a newline, and markers that only pair up across one stay as they are.
  The link pattern is different: its URL part \<open>[^\)]+\<close> accepts the newline, and
  \<open>[t](http://x\ny)\<close> becomes a link whose URL holds the newline.
\<close>

theorem emphasis_within_one_line:
  "re_sub bold_re False bold_tpl (a @ CHR 0x0A # b) =
     re_sub bold_re False bold_tpl a @ CHR 0x0A # re_sub bold_re False bold_tpl b \<and>
   re_sub italic_re False italic_tpl (a @ CHR 0x0A # b) =
     re_sub italic_re False italic_tpl a @ CHR 0x0A # re_sub italic_re False italic_tpl b \<and>
   process_inline_formatting ''**a\<newline>b**'' = ''**a\<newline>b**'' \<and>
   process_inline_formatting ''*a\<newline>b*'' = ''*a\<newline>b*'' \<and>
   process_inline_formatting ''[t](http://x\<newline>y)'' =
     ''<a href='' @ [CHR 0x22] @ ''http://x\<newline>y'' @ [CHR 0x22] @ '' color='' @ [CHR 0x22] @ ''blue''
       @ [CHR 0x22] @ ''>t</a>''"
proof -
  have 1: "re_sub bold_re False bold_tpl (a @ CHR 0x0A # b) =
     re_sub bold_re False bold_tpl a @ CHR 0x0A # re_sub bold_re False bold_tpl b"
    unfolding re_sub_def by (rule re_sub_from_lines [OF nl_free_bold min_len_bold])
  have 2: "re_sub italic_re False italic_tpl (a @ CHR 0x0A # b) =
     re_sub italic_re False italic_tpl a @ CHR 0x0A # re_sub italic_re False italic_tpl b"
    unfolding re_sub_def by (rule re_sub_from_lines [OF nl_free_italic min_len_italic])
  have 3: "process_inline_formatting ''**a\<newline>b**'' = ''**a\<newline>b**''" by code_simp
  have 4: "process_inline_formatting ''*a\<newline>b*'' = ''*a\<newline>b*''" by code_simp
  have 5: "process_inline_formatting ''[t](http://x\<newline>y)'' =
     ''<a href='' @ [CHR 0x22] @ ''http://x\<newline>y'' @ [CHR 0x22] @ '' color='' @ [CHR 0x22] @ ''blue''
       @ [CHR 0x22] @ ''>t</a>''" by code_simp
  from 1 2 3 4 5 show ?thesis by blast
qed

theorem emphasis_within_one_line_witness:
  "re_sub bold_re False bold_tpl ''**x**\<newline>**y'' = ''<b>x</b>\<newline>**y'' \<and>
   re_sub italic_re False italic_tpl ''*x\<newline>y*'' = ''*x\<newline>y*''"
proof -
  have a: "re_sub bold_re False bold_tpl ''**x**'' = ''<b>x</b>''" by code_simp
  have b: "re_sub bold_re False bold_tpl ''**y'' = ''**y''" by code_simp
  have c: "re_sub italic_re False italic_tpl ''*x'' = ''*x''" by code_simp
  have d: "re_sub italic_re False italic_tpl ''y*'' = ''y*''" by code_simp
  show ?thesis
    using emphasis_within_one_line [of "''**x**''" "''**y''"]
      emphasis_within_one_line [of "''*x''" "''y*''"] a b c d
    by simp
qed

text \<open>
  C4. \<open>process_inline_formatting\<close> runs the bold substitution first and the italic
  substitution on its result. A text \<open>**x**\<close> whose \<open>x\<close> holds no star and no newline
  becomes \<open><b>x</b>\<close> in the bold step; the italic step then finds nothing, and no
  star is left in the result. On \<open>**a*b*c**\<close> the bold step takes the outer pair and
  the italic step the inner one.
\<close>

theorem bold_before_italic:
  "process_inline_formatting s =
     re_sub link_re False link_tpl (re_sub italic_re False italic_tpl (re_sub bold_re False bold_tpl s)) \<and>
   (x \<noteq> [] \<and> CHR ''*'' \<notin> set x \<and> CHR 0x0A \<notin> set x \<longrightarrow>
      re_sub italic_re False italic_tpl (re_sub bold_re False bold_tpl (''**'' @ x @ ''**'')) =
        ''<b>'' @ x @ ''</b>'' \<and>
      CHR ''*'' \<notin> set (process_inline_formatting (''**'' @ x @ ''**''))) \<and>
   process_inline_formatting ''**bold**'' = ''<b>bold</b>'' \<and>
   re_sub bold_re False bold_tpl ''**a*b*c**'' = ''<b>a*b*c</b>'' \<and>
   process_inline_formatting ''**a*b*c**'' = ''<b>a<i>b</i>c</b>''"
proof -
  have 1: "process_inline_formatting s =
     re_sub link_re False link_tpl (re_sub italic_re False italic_tpl (re_sub bold_re False bold_tpl s))"
    by (simp add: process_inline_formatting_def)
  have 2: "re_sub italic_re False italic_tpl (re_sub bold_re False bold_tpl (''**'' @ x @ ''**'')) =
        ''<b>'' @ x @ ''</b>'' \<and>
      CHR ''*'' \<notin> set (process_inline_formatting (''**'' @ x @ ''**''))"
    if x: "x \<noteq> []" "CHR ''*'' \<notin> set x" "CHR 0x0A \<notin> set x"
  proof -
    have b: "re_sub bold_re False bold_tpl (''**'' @ x @ ''**'') = ''<b>'' @ x @ ''</b>''"
      using x by (rule bold_alone)
    have "CHR ''*'' \<notin> set (''<b>'' @ x @ ''</b>'')" using x(2) by simp
    then have "re_search_from italic_re False None (''<b>'' @ x @ ''</b>'') = None"
      by (rule star_free_no_italic)
    then have i: "re_sub italic_re False italic_tpl (''<b>'' @ x @ ''</b>'') = ''<b>'' @ x @ ''</b>''"
      unfolding re_sub_def by (rule re_sub_no_match)
    have "set (re_sub link_re False link_tpl (''<b>'' @ x @ ''</b>'')) \<subseteq>
        set (''<b>'' @ x @ ''</b>'') \<union> tpl_chars link_tpl"
      unfolding re_sub_def by (rule re_sub_from_chars)
    moreover have "CHR ''*'' \<notin> set (''<b>'' @ x @ ''</b>'') \<union> tpl_chars link_tpl"
      using x(2) by (simp add: link_tpl_def)
    ultimately have "CHR ''*'' \<notin> set (re_sub link_re False link_tpl (''<b>'' @ x @ ''</b>''))"
      by blast
    with b i show ?thesis by (simp add: process_inline_formatting_def)
  qed
  have 3: "process_inline_formatting ''**bold**'' = ''<b>bold</b>''" by code_simp
  have 4: "re_sub bold_re False bold_tpl ''**a*b*c**'' = ''<b>a*b*c</b>''" by code_simp
  have 5: "process_inline_formatting ''**a*b*c**'' = ''<b>a<i>b</i>c</b>''" by code_simp
  from 1 2 3 4 5 show ?thesis by blast
qed

theorem bold_before_italic_witness:
  "re_sub italic_re False italic_tpl (re_sub bold_re False bold_tpl ''**all bold**'') =
     ''<b>all bold</b>'' \<and>
   CHR ''*'' \<notin> set (process_inline_formatting ''**all bold**'')"
proof -
  have h: "''all bold'' \<noteq> [] \<and> CHR ''*'' \<notin> set ''all bold'' \<and> CHR 0x0A \<notin> set ''all bold''"
    by simp
  with bold_before_italic [of "[]" "''all bold''"]
  have "re_sub italic_re False italic_tpl (re_sub bold_re False bold_tpl (''**'' @ ''all bold'' @ ''**'')) =
        ''<b>'' @ ''all bold'' @ ''</b>'' \<and>
      CHR ''*'' \<notin> set (process_inline_formatting (''**'' @ ''all bold'' @ ''**''))"
    by blast
  then show ?thesis by simp
qed

text \<open>
  C9. The claim: the blocks of every section are emitted in order, the heading, the gap
  of height \<open>heading_to_content_space\<close>, the body block and the gap of height 12, and a
  section with an empty body gives its heading alone and raises no error. The program
  does not keep the last part. On the heading \<open>***a***\<close> the bold step takes
  \<open>***a**\<close> and leaves \<open><b>*a</b>*\<close>, and the italic step pairs the two stars that
  remain, which gives the crossed tags \<open><b><i>a</b></i>\<close>; ReportLab refuses that
  text, so the heading paragraph of \<open>## ***a***\<close> raises \<open>ValueError\<close> although the
  body is empty.
\<close>

theorem empty_body_heading_raises:
  assumes "\<not> parses ''<b><i>a</b></i>''"
  shows "process_inline_formatting ''***a***'' = ''<b><i>a</b></i>'' \<and>
    create_pdf_reportlab parses build {font_path} ''## ***a***\<newline>'' file_name
        heading_to_content_space =
      Inl (ValueError ''<b><i>a</b></i>'')"
proof -
  have f: "process_inline_formatting ''***a***'' = ''<b><i>a</b></i>''" by code_simp
  have parts: "re_split heading_re True ''## ***a***\<newline>'' = [[], ''## ***a***'', ''\<newline>'']"
    by code_simp
  have h: "process_inline_formatting (strip (lstrip_chars ''#'' (strip ''## ***a***''))) =
      ''<b><i>a</b></i>''"
    by code_simp
  have s: "section_elements parses heading_to_content_space ''## ***a***'' ''\<newline>'' =
      Inl (ValueError ''<b><i>a</b></i>'')"
    using assms by (simp add: section_elements_def new_Paragraph_def h)
  have "sections_loop parses heading_to_content_space [[], ''## ***a***'', ''\<newline>''] 1 [] =
      Inl (ValueError ''<b><i>a</b></i>'')"
    by (subst sections_loop.simps) (simp add: s)
  with parts f show ?thesis
    by (simp add: create_pdf_reportlab_def)
qed

theorem empty_body_heading_raises_witness:
  "create_pdf_reportlab (\<lambda>t. t \<noteq> ''<b><i>a</b></i>'') (\<lambda>elements. elements) {font_path}
     ''## ***a***\<newline>'' ''out.pdf'' 24 = Inl (ValueError ''<b><i>a</b></i>'')"
  using empty_body_heading_raises [of "\<lambda>t. t \<noteq> ''<b><i>a</b></i>''" "\<lambda>elements. elements"
      "''out.pdf''" 24]
  by simp

text \<open>
  C3. The claim: the first line of a section's text that is not blank decides the
  block, a bullet list when it begins with a marker and one flowed paragraph otherwise.
  The decision is taken as claimed (the first loop stops at that line), but the
  paragraph is not always made: the text \<open>***a***\<close> begins with no marker, and the
  program hands ReportLab the crossed tags \<open><b><i>a</b></i>\<close> that
  \<open>process_inline_formatting\<close> leaves, so the call raises \<open>ValueError\<close> where the claim
  has a paragraph.
\<close>

theorem crossed_tags_paragraph_raises:
  assumes "parses ''H''" "\<not> parses ''<b><i>a</b></i>''"
  shows "\<not> has_marker ''***a***'' \<and>
    create_pdf_reportlab parses build {font_path} ''## H\<newline>***a***'' file_name
        heading_to_content_space =
      Inl (ValueError ''<b><i>a</b></i>'')"
proof -
  have m: "\<not> has_marker ''***a***''" by code_simp
  have parts: "re_split heading_re True ''## H\<newline>***a***'' = [[], ''## H'', ''\<newline>***a***'']"
    by code_simp
  have h: "process_inline_formatting (strip (lstrip_chars ''#'' (strip ''## H''))) = ''H''"
    by code_simp
  have c: "process_inline_formatting (strip ''\<newline>***a***'') = ''<b><i>a</b></i>''"
    by code_simp
  have l: "bullet_match_loop (splitlines ''<b><i>a</b></i>'') = None" by code_simp
  have b: "body_elements parses ''<b><i>a</b></i>'' = Inl (ValueError ''<b><i>a</b></i>'')"
    using assms(2) by (simp add: body_elements_def new_Paragraph_def l)
  have s: "section_elements parses heading_to_content_space ''## H'' ''\<newline>***a***'' =
      Inl (ValueError ''<b><i>a</b></i>'')"
    using assms(1) by (simp add: section_elements_def new_Paragraph_def h c b)
  have "sections_loop parses heading_to_content_space [[], ''## H'', ''\<newline>***a***''] 1 [] =
      Inl (ValueError ''<b><i>a</b></i>'')"
    by (subst sections_loop.simps) (simp add: s)
  with parts m show ?thesis
    by (simp add: create_pdf_reportlab_def)
qed

theorem crossed_tags_paragraph_raises_witness:
  "create_pdf_reportlab (\<lambda>t. t = ''H'') (\<lambda>elements. elements) {font_path}
     ''## H\<newline>***a***'' ''out.pdf'' 24 = Inl (ValueError ''<b><i>a</b></i>'')"
  using crossed_tags_paragraph_raises [of "\<lambda>t. t = ''H''" "\<lambda>elements. elements" "''out.pdf''" 24]
  by simp

text \<open>
  C1. The claim: the spans are resolved on every line of a body on its own, and for a
  bullet list after the marker has been removed, so the two lines \<open>- [t](http://x\<close> and
  \<open>- y)\<close> give the items \<open>[t](http://x\<close> and \<open>y)\<close>. The program resolves the spans
  once, on the whole text of the section, before it splits the text into lines. The URL
  class \<open>[^\)]+\<close> accepts the newline, so the link is resolved across the two lines and
  each item is left with half of the tag; ReportLab refuses the first item and the call
  raises \<open>ValueError\<close>.
\<close>

theorem list_item_half_tag_raises:
  assumes "parses ''H''" "\<not> parses (''<a href='' @ [CHR 0x22] @ ''http://x'')"
  shows "create_pdf_reportlab parses build {font_path} ''## H\<newline>- [t](http://x\<newline>- y)''
        file_name heading_to_content_space =
      Inl (ValueError (''<a href='' @ [CHR 0x22] @ ''http://x'')) \<and>
    spec_bullet_items ''- [t](http://x\<newline>- y)'' = [''[t](http://x'', ''y)'']"
proof -
  have sp: "spec_bullet_items ''- [t](http://x\<newline>- y)'' = [''[t](http://x'', ''y)'']"
    by code_simp
  have parts: "re_split heading_re True ''## H\<newline>- [t](http://x\<newline>- y)'' =
      [[], ''## H'', ''\<newline>- [t](http://x\<newline>- y)'']"
    by code_simp
  have h: "process_inline_formatting (strip (lstrip_chars ''#'' (strip ''## H''))) = ''H''"
    by code_simp
  define c where "c = process_inline_formatting (strip ''\<newline>- [t](http://x\<newline>- y)'')"
  have l: "bullet_match_loop (splitlines c) \<noteq> None" unfolding c_def by code_simp
  have x: "splitlines c = [''- <a href='' @ [CHR 0x22] @ ''http://x'',
      ''- y'' @ [CHR 0x22] @ '' color='' @ [CHR 0x22] @ ''blue'' @ [CHR 0x22] @ ''>t</a>'']"
    unfolding c_def by code_simp
  have st: "strip (''- <a href='' @ [CHR 0x22] @ ''http://x'') = ''- <a href='' @ [CHR 0x22] @ ''http://x''"
    by code_simp
  have mk: "re_sub marker_re False [] (''- <a href='' @ [CHR 0x22] @ ''http://x'') =
      ''<a href='' @ [CHR 0x22] @ ''http://x''"
    by code_simp
  have it: "bullet_items_loop parses (splitlines c) [] =
      Inl (ValueError (''<a href='' @ [CHR 0x22] @ ''http://x''))"
    unfolding x using assms(2) st mk
    by (simp add: new_Paragraph_def)
  have b: "body_elements parses c = Inl (ValueError (''<a href='' @ [CHR 0x22] @ ''http://x''))"
    using l by (simp add: body_elements_def it)
  have s: "section_elements parses heading_to_content_space ''## H'' ''\<newline>- [t](http://x\<newline>- y)'' =
      Inl (ValueError (''<a href='' @ [CHR 0x22] @ ''http://x''))"
    using assms(1) b by (simp add: section_elements_def new_Paragraph_def h c_def)
  have "sections_loop parses heading_to_content_space
      [[], ''## H'', ''\<newline>- [t](http://x\<newline>- y)''] 1 [] =
      Inl (ValueError (''<a href='' @ [CHR 0x22] @ ''http://x''))"
    by (subst sections_loop.simps) (simp add: s)
  with parts sp show ?thesis
    by (simp add: create_pdf_reportlab_def)
qed

theorem list_item_half_tag_raises_witness:
  "create_pdf_reportlab (\<lambda>t. t = ''H'') (\<lambda>elements. elements) {font_path}
     ''## H\<newline>- [t](http://x\<newline>- y)'' ''out.pdf'' 24 =
     Inl (ValueError (''<a href='' @ [CHR 0x22] @ ''http://x''))"
  using list_item_half_tag_raises [of "\<lambda>t. t = ''H''" "\<lambda>elements. elements" "''out.pdf''" 24]
  by simp

text \<open>
  C5. The claim: a link is made only for a URL that begins with \<open>http://\<close> or
  \<open>https://\<close>, and link syntax without such a scheme is passed through unchanged. Every
  match of the link pattern does have such a URL, and \<open>[text](notaurl)\<close> alone is left
  as it is. But the text group \<open>.+?\<close> of the pattern accepts a closing bracket: in
  \<open>[a](b) [c](http://x)\<close> it runs from the first opening bracket over \<open>](b) [c\<close> to the
  URL of the second link, so the first link loses its opening bracket and becomes part
  of the text of one hyperlink.
\<close>

theorem schemeless_link_absorbed:
  "process_inline_formatting ''[a](b) [c](http://x)'' =
     ''<a href='' @ [CHR 0x22] @ ''http://x'' @ [CHR 0x22] @ '' color='' @ [CHR 0x22] @ ''blue''
       @ [CHR 0x22] @ ''>a](b) [c</a>'' \<and>
   \<not> sublist ''[a](b)'' (process_inline_formatting ''[a](b) [c](http://x)'')"
  by code_simp

text \<open>
  C2. The claim: every line whose content that is not blank begins with two or more
  \<open>#\<close> starts a new section, what precedes the first heading line is discarded, and
  \<open>"stray text\n## Only\nBody"\<close> yields the one section \<open>Only\<close> / \<open>Body\<close>.
  The pattern \<open>^##\<close> is anchored at the start of the line, so an indented \<open>##\<close> opens no
  section: the document \<open>" ## Only\nBody"\<close> has none. As amended: the heading lines are
  the lines that begin with \<open>##\<close> in their first column. For a document in which each
  such line has a character that is not white space after its first two, the program
  builds, in order, the flowables of the sections that a scan of the lines finds
  (\<open>spec_sections\<close>: a heading line and the lines up to the next heading line), or
  raises the first exception that a section raises; the lines before the first heading
  line are in no section. The example of the claim is rendered as claimed when ReportLab
  accepts its two texts. A line of \<open>##\<close> followed by white space only is left out:
  there \<open>\s*\<close> runs over the line break.
\<close>

theorem sections_of_heading_lines:
  assumes "font_path \<in> fs"
  shows "((\<forall>l\<in>set (lines_nl content).
             prefix ''##'' l \<longrightarrow> (\<exists>c\<in>set (drop 2 l). \<not> isspace c)) \<longrightarrow>
          create_pdf_reportlab parses build fs content file_name sp =
            (case collect (map (\<lambda>(l, b). section_elements parses sp l (body_text b))
                      (spec_sections (lines_nl content))) of
               Inl e \<Rightarrow> Inl e
             | Inr es \<Rightarrow> Inr (build es))) \<and>
         (parses ''Only'' \<and> parses ''Body'' \<longrightarrow>
          spec_sections (lines_nl ''stray text\<newline>## Only\<newline>Body'') =
            [(''## Only'', [''Body''])] \<and>
          create_pdf_reportlab parses build fs ''stray text\<newline>## Only\<newline>Body'' file_name sp =
            Inr (build [Paragraph ''Only'' heading_style, Spacer 1 sp,
              Paragraph ''Body'' body_style, Spacer 1 12]))"
proof (intro conjI impI)
  assume "\<forall>l\<in>set (lines_nl content).
      prefix ''##'' l \<longrightarrow> (\<exists>c\<in>set (drop 2 l). \<not> isspace c)"
  with assms show "create_pdf_reportlab parses build fs content file_name sp =
      (case collect (map (\<lambda>(l, b). section_elements parses sp l (body_text b))
                (spec_sections (lines_nl content))) of
         Inl e \<Rightarrow> Inl e
       | Inr es \<Rightarrow> Inr (build es))"
    by (rule split_by_heading_lines)
next
  show secs: "spec_sections (lines_nl ''stray text\<newline>## Only\<newline>Body'') =
      [(''## Only'', [''Body''])]"
    by (simp add: stray_text_lines)
  assume p: "parses ''Only'' \<and> parses ''Body''"
  have "\<forall>l\<in>set (lines_nl ''stray text\<newline>## Only\<newline>Body'').
      prefix ''##'' l \<longrightarrow> (\<exists>c\<in>set (drop 2 l). \<not> isspace c)"
    by (simp add: stray_text_lines isspace_def)
  with assms have "create_pdf_reportlab parses build fs ''stray text\<newline>## Only\<newline>Body''
        file_name sp =
      (case collect (map (\<lambda>(l, b). section_elements parses sp l (body_text b))
                (spec_sections (lines_nl ''stray text\<newline>## Only\<newline>Body''))) of
         Inl e \<Rightarrow> Inl e
       | Inr es \<Rightarrow> Inr (build es))"
    by (rule split_by_heading_lines)
  with p show "create_pdf_reportlab parses build fs ''stray text\<newline>## Only\<newline>Body''
        file_name sp =
      Inr (build [Paragraph ''Only'' heading_style, Spacer 1 sp,
        Paragraph ''Body'' body_style, Spacer 1 12])"
    by (simp only: secs list.map prod.case collect.simps stray_text_section sum.case append_Nil2)
qed

theorem sections_of_heading_lines_witness:
  "create_pdf_reportlab (\<lambda>t. True) (\<lambda>elements. elements) {font_path}
     ''intro\<newline>## A\<newline>x\<newline>### B'' ''out.pdf'' 24 =
   Inr [Paragraph ''A'' heading_style, Spacer 1 24, Paragraph ''x'' body_style, Spacer 1 12,
        Paragraph ''B'' heading_style, Spacer 1 24, Spacer 1 12] \<and>
   create_pdf_reportlab (\<lambda>t. True) (\<lambda>elements. elements) {font_path}
     ''stray text\<newline>## Only\<newline>Body'' ''out.pdf'' 24 =
   Inr [Paragraph ''Only'' heading_style, Spacer 1 24, Paragraph ''Body'' body_style,
        Spacer 1 12]"
proof -
  note T = sections_of_heading_lines [of "{font_path}" "''intro\<newline>## A\<newline>x\<newline>### B''"
      "\<lambda>t. True" "\<lambda>elements. elements" "''out.pdf''" 24]
  have ls: "lines_nl ''intro\<newline>## A\<newline>x\<newline>### B'' = [''intro'', ''## A'', ''x'', ''### B'']"
    by code_simp
  have hyp: "\<forall>l\<in>set (lines_nl ''intro\<newline>## A\<newline>x\<newline>### B'').
      prefix ''##'' l \<longrightarrow> (\<exists>c\<in>set (drop 2 l). \<not> isspace c)"
    by (simp add: ls isspace_def)
  have a: "section_elements (\<lambda>t. True) 24 ''## A'' (body_text [''x'']) =
      Inr [Paragraph ''A'' heading_style, Spacer 1 24, Paragraph ''x'' body_style, Spacer 1 12]"
    by code_simp
  have b: "section_elements (\<lambda>t. True) 24 ''### B'' (body_text []) =
      Inr [Paragraph ''B'' heading_style, Spacer 1 24, Spacer 1 12]"
    by code_simp
  have secs: "spec_sections (lines_nl ''intro\<newline>## A\<newline>x\<newline>### B'') =
      [(''## A'', [''x'']), (''### B'', [])]"
    by (simp add: ls)
  from T hyp have "create_pdf_reportlab (\<lambda>t. True) (\<lambda>elements. elements) {font_path}
      ''intro\<newline>## A\<newline>x\<newline>### B'' ''out.pdf'' 24 =
      (case collect (map (\<lambda>(l, b). section_elements (\<lambda>t. True) 24 l (body_text b))
                (spec_sections (lines_nl ''intro\<newline>## A\<newline>x\<newline>### B''))) of
         Inl e \<Rightarrow> Inl e
       | Inr es \<Rightarrow> Inr es)"
    by blast
  then have one: "create_pdf_reportlab (\<lambda>t. True) (\<lambda>elements. elements) {font_path}
      ''intro\<newline>## A\<newline>x\<newline>### B'' ''out.pdf'' 24 =
      Inr [Paragraph ''A'' heading_style, Spacer 1 24, Paragraph ''x'' body_style, Spacer 1 12,
        Paragraph ''B'' heading_style, Spacer 1 24, Spacer 1 12]"
    by (simp only: secs list.map prod.case collect.simps a b sum.case append_Nil2 append.simps)
  from T have "create_pdf_reportlab (\<lambda>t. True) (\<lambda>elements. elements) {font_path}
      ''stray text\<newline>## Only\<newline>Body'' ''out.pdf'' 24 =
      Inr [Paragraph ''Only'' heading_style, Spacer 1 24, Paragraph ''Body'' body_style,
        Spacer 1 12]"
    by blast
  with one show ?thesis by (rule conjI)
qed

theorem indented_heading_no_section:
  "claimed_heading_line '' ## Only'' \<and>
   '' ## Only'' \<in> set (lines_nl '' ## Only\<newline>Body'') \<and>
   create_pdf_reportlab (\<lambda>t. True) (\<lambda>elements. elements) {font_path}
     '' ## Only\<newline>Body'' ''out.pdf'' 24 = Inr []"
proof -
  have a: "claimed_heading_line '' ## Only''" by code_simp
  have b: "lines_nl '' ## Only\<newline>Body'' = ['' ## Only'', ''Body'']" by code_simp
  have parts: "re_split heading_re True '' ## Only\<newline>Body'' = ['' ## Only\<newline>Body'']"
    by code_simp
  have "sections_loop (\<lambda>t. True) 24 ['' ## Only\<newline>Body''] 1 [] = Inr []"
    by (subst sections_loop.simps) simp
  with a b parts show ?thesis
    by (simp add: create_pdf_reportlab_def)
qed

end
